theory Spec2Isabelle
  imports Main "HOL-Library.Word" "HOL-Library.Multiset"
begin

unbundle bit_operations_syntax

section \<open>C strings and the memory they live in\<close>

text \<open>
  A pointer is a natural number; \<open>NULL\<close> is \<open>None\<close> of \<open>addr option\<close>.
  The memory maps the address of every live block (a \<open>malloc\<close>ed buffer, or a buffer the
  caller owns) to its bytes. \<open>free\<close> removes the block.

  Reading a pointer that is not a live block, or a block with no terminator, is undefined
  in C. The model reads the empty block for the first and the whole block for the second;
  the theorems about the strings that insert and remove read state that the block is live
  (and terminated where \<open>strlen\<close> scans it).
\<close>

type_synonym addr = nat

type_synonym memory = "addr \<rightharpoonup> char list"

definition NUL :: char where
  "NUL = CHR 0x00"

definition mem_read :: "memory \<Rightarrow> addr \<Rightarrow> char list" where
  "mem_read m p = (case m p of None \<Rightarrow> [] | Some bs \<Rightarrow> bs)"

definition mem_free :: "memory \<Rightarrow> addr \<Rightarrow> memory" where
  "mem_free m p = m(p := None)"

text \<open>The bytes of a C string: those before the first terminator.\<close>

definition c_str :: "char list \<Rightarrow> char list" where
  "c_str bs = takeWhile (\<lambda>c. c \<noteq> NUL) bs"

definition strlen :: "char list \<Rightarrow> nat" where
  "strlen bs = length (c_str bs)"

fun bytes_cmp :: "char list \<Rightarrow> char list \<Rightarrow> int" where
  "bytes_cmp [] [] = 0"
| "bytes_cmp [] (y # ys) = - 1"
| "bytes_cmp (x # xs) [] = 1"
| "bytes_cmp (x # xs) (y # ys) =
     (if x = y then bytes_cmp xs ys
      else if (of_char x :: nat) < of_char y then - 1 else 1)"

definition strcmp :: "char list \<Rightarrow> char list \<Rightarrow> int" where
  "strcmp s1 s2 = bytes_cmp (c_str s1) (c_str s2)"

section \<open>The dictionary record and its equality callbacks (dict.c)\<close>

text \<open>
  \<open>struct ly_dict_rec\<close> of \<open>hash_table_internal.h\<close>: the stored string and its
  reference count (\<open>uint32_t\<close>, so \<open>++\<close> and \<open>--\<close> wrap).
\<close>

record ly_dict_rec =
  dr_value :: "addr option"
  dr_refcount :: "32 word"

type_synonym ly_bool = "8 word"

text \<open>
  \<open>lydict_val_eq\<close>: both record pointers and both strings must be non-null
  (\<open>LY_CHECK_ARG_RET\<close>, \<open>LY_CHECK_ERR_RET\<close>: return 0), then \<open>strcmp\<close> decides.
  The arguments \<open>mod\<close> and \<open>cb_data\<close> are unused. The log lines the two checks write on
  their failing paths are not part of the returned value and are left out.
\<close>

definition lydict_val_eq ::
  "memory \<Rightarrow> ly_dict_rec option \<Rightarrow> ly_dict_rec option \<Rightarrow> ly_bool \<Rightarrow> addr option \<Rightarrow> ly_bool" where
  "lydict_val_eq m val1_p val2_p mode cb_data =
     (case val1_p of None \<Rightarrow> 0 | Some r1 \<Rightarrow>
      case val2_p of None \<Rightarrow> 0 | Some r2 \<Rightarrow>
      case dr_value r1 of None \<Rightarrow> 0 | Some str1 \<Rightarrow>
      case dr_value r2 of None \<Rightarrow> 0 | Some str2 \<Rightarrow>
        if strcmp (mem_read m str1) (mem_read m str2) = 0 then 1 else 0)"

text \<open>
  \<open>lydict_resize_val_eq\<close>: the same checks; with \<open>mod\<close> set it compares with
  \<open>strcmp\<close> itself (and falls through to \<open>return 0\<close>), otherwise it calls
  \<open>lydict_val_eq\<close>.
\<close>

definition lydict_resize_val_eq ::
  "memory \<Rightarrow> ly_dict_rec option \<Rightarrow> ly_dict_rec option \<Rightarrow> ly_bool \<Rightarrow> addr option \<Rightarrow> ly_bool" where
  "lydict_resize_val_eq m val1_p val2_p mode cb_data =
     (case val1_p of None \<Rightarrow> 0 | Some r1 \<Rightarrow>
      case val2_p of None \<Rightarrow> 0 | Some r2 \<Rightarrow>
      case dr_value r1 of None \<Rightarrow> 0 | Some str1 \<Rightarrow>
      case dr_value r2 of None \<Rightarrow> 0 | Some str2 \<Rightarrow>
        if mode \<noteq> 0 then
          (if strcmp (mem_read m str1) (mem_read m str2) = 0 then 1 else 0)
        else lydict_val_eq m val1_p val2_p mode cb_data)"

section \<open>Return codes, the log and the lock\<close>

text \<open>
  The codes of \<open>LY_ERR\<close> that dict.c names. The log macros, the mutex calls and
  \<open>lyht_free\<close> are recorded as events, in the order the code runs them, so that
  "logged once" and "the lock is never taken" are statements about the trace.
\<close>

datatype LY_ERR = LY_SUCCESS | LY_EMEM | LY_EINVAL | LY_EEXIST | LY_ENOTFOUND

datatype event =
    MutexLock
  | MutexUnlock
  | MutexDestroy
  | LogDbg
  | LogArg
  | LogMem
  | LogInt
  | LogErr LY_ERR "char list"
  | LogWrn "addr option" "32 word"
  | HtFree

record world =
  w_mem :: memory
  w_trace :: "event list"

definition log_event :: "event \<Rightarrow> world \<Rightarrow> world" where
  "log_event e w = w\<lparr>w_trace := w_trace w @ [e]\<rparr>"

text \<open>\<open>free(p)\<close>: nothing for a null pointer, else the block is gone.\<close>

definition free_ptr :: "addr option \<Rightarrow> world \<Rightarrow> world" where
  "free_ptr p w = (case p of None \<Rightarrow> w | Some a \<Rightarrow> w\<lparr>w_mem := mem_free (w_mem w) a\<rparr>)"

section \<open>The generic hash table\<close>

text \<open>
  Of the hash table, the sources hold the header only: the record and table structs, the fill
  percentages, the size floor and \<open>lyht_get_rec\<close>. \<open>lyht_find\<close>,
  \<open>lyht_insert_with_resize_cb\<close>, \<open>lyht_remove_with_resize_cb\<close>, \<open>lyht_free\<close> and
  \<open>lyht_hash\<close> are not among the sources.

  A table record caches the hash beside the value; the value of a dictionary table is a
  \<open>struct ly_dict_rec\<close>.
\<close>

record ly_ht_rec =
  rec_hash :: "32 word"
  rec_val :: ly_dict_rec

text \<open>
  A slot of the record array. \<open>lydict_clean\<close> tests a member \<open>hits\<close> of each slot;
  \<open>struct ly_ht_rec\<close> of hash_table_internal.h has no such member (it has \<open>hash\<close>,
  \<open>next\<close>, \<open>val\<close>), so the slot is the record extended by it. The member \<open>next\<close> is
  kept in the lists of the table below.
\<close>

record ly_ht_rec_hits = ly_ht_rec +
  rec_hits :: int

text \<open>
  \<open>struct ly_ht\<close>: \<open>used\<close>, \<open>size\<close>, the resize flag (0 off, 1 enlarging, 2
  enlarging and shrinking), the free list, the buckets and the record array. "The hash
  table is composed of a table of indexes that references the first record. The records
  contain a next index that references the next record in case of collision. The free
  records are chained starting from \<open>first_free_rec\<close>." A chain is kept as the list of
  the indexes met from \<open>first\<close> along \<open>next\<close>, and the free list as the list of the
  indexes met from \<open>first_free_rec\<close>. \<open>used\<close> and \<open>size\<close> are \<open>uint32_t\<close> in the
  header and natural numbers here; the callback and its data are arguments of the
  operations. A pointer to a stored record is the index of its slot.
\<close>

record ly_ht =
  ht_used :: nat
  ht_size :: nat
  ht_resize :: nat
  ht_free :: "nat list"
  ht_buckets :: "nat list list"
  ht_recs :: "ly_ht_rec_hits list"

type_synonym rec_pos = nat

type_synonym val_equal_cb =
  "memory \<Rightarrow> ly_dict_rec option \<Rightarrow> ly_dict_rec option \<Rightarrow> ly_bool \<Rightarrow> addr option \<Rightarrow> ly_bool"

definition LYHT_HUNDRED_PERCENTAGE :: nat where "LYHT_HUNDRED_PERCENTAGE = 100"
definition LYHT_ENLARGE_PERCENTAGE :: nat where "LYHT_ENLARGE_PERCENTAGE = 75"
definition LYHT_FIRST_SHRINK_PERCENTAGE :: nat where "LYHT_FIRST_SHRINK_PERCENTAGE = 50"
definition LYHT_SHRINK_PERCENTAGE :: nat where "LYHT_SHRINK_PERCENTAGE = 25"
definition LYHT_MIN_SIZE :: nat where "LYHT_MIN_SIZE = 8"

text \<open>
  A slot that holds no record, as \<open>calloc\<close> leaves it.
\<close>

definition lyht_no_rec :: ly_ht_rec_hits where
  "lyht_no_rec = \<lparr>rec_hash = 0, rec_val = \<lparr>dr_value = None, dr_refcount = 0\<rparr>, rec_hits = 0\<rparr>"

text \<open>
  \<open>lyht_get_rec\<close> of the header: the slot of an index. The byte offset
  \<open>idx * lyht_align_rec_size(rec_size)\<close> is the position in the list. An index past the
  array is a stale pointer in C; the model reads an empty slot there.
\<close>

definition lyht_get_rec :: "ly_ht_rec_hits list \<Rightarrow> nat \<Rightarrow> ly_ht_rec_hits" where
  "lyht_get_rec recs idx = (if idx < length recs then recs ! idx else lyht_no_rec)"

text \<open>The record of a slot without the member \<open>hits\<close>.\<close>

definition lyht_rec_of :: "ly_ht_rec_hits \<Rightarrow> ly_ht_rec" where
  "lyht_rec_of s = \<lparr>rec_hash = rec_hash s, rec_val = rec_val s\<rparr>"

text \<open>
  The slots in use, as \<open>LYHT_ITER_ALL_RECS\<close> of the header walks them (bucket by bucket,
  each chain from its first record), and the records they hold.
\<close>

definition lyht_live :: "ly_ht \<Rightarrow> nat list" where
  "lyht_live ht = concat (ht_buckets ht)"

definition lyht_records :: "ly_ht \<Rightarrow> ly_ht_rec list" where
  "lyht_records ht = map (\<lambda>i. lyht_rec_of (lyht_get_rec (ht_recs ht) i)) (lyht_live ht)"

definition lyht_chain :: "ly_ht \<Rightarrow> nat \<Rightarrow> nat list" where
  "lyht_chain ht b = (if b < length (ht_buckets ht) then ht_buckets ht ! b else [])"

text \<open>The record a pointer into the table points at.\<close>

definition lyht_rec_at :: "ly_ht \<Rightarrow> rec_pos \<Rightarrow> ly_ht_rec" where
  "lyht_rec_at ht pos = lyht_rec_of (lyht_get_rec (ht_recs ht) pos)"

text \<open>Writing the value of the record a pointer points at (\<open>match->refcount++\<close>).\<close>

definition lyht_update_at :: "ly_ht \<Rightarrow> rec_pos \<Rightarrow> (ly_dict_rec \<Rightarrow> ly_dict_rec) \<Rightarrow> ly_ht" where
  "lyht_update_at ht pos f =
     ht\<lparr>ht_recs := (ht_recs ht)
        [pos := (lyht_get_rec (ht_recs ht) pos)
                  \<lparr>rec_val := f (rec_val (lyht_get_rec (ht_recs ht) pos))\<rparr>]\<rparr>"

text \<open>
  Modelled from the spec: chain placement, which hash_table.c (not among the sources) computes.
  "Chain placement is \<open>hash & (size-1)\<close>."
\<close>

definition lyht_bucket :: "nat \<Rightarrow> 32 word \<Rightarrow> nat" where
  "lyht_bucket sz h = unat (h AND (word_of_nat sz - 1))"

text \<open>
  The walk of \<open>LYHT_ITER_BUCKET_RECS\<close> that stops at the first slot of the chain with the
  property.
\<close>

fun chain_find :: "(nat \<Rightarrow> bool) \<Rightarrow> nat list \<Rightarrow> nat option" where
  "chain_find P [] = None"
| "chain_find P (i # is) = (if P i then Some i else chain_find P is)"

text \<open>
  Modelled from the spec: the chain walk of \<open>lyht_find\<close> (hash_table.c, not among the sources).
  "Walks the bucket \<open>hash & (size-1)\<close>'s chain, calling \<open>equal_cb(probe, candidate, mode)\<close>
  on each; returns the first match or not found."
\<close>

definition lyht_find_pos ::
  "val_equal_cb \<Rightarrow> ly_bool \<Rightarrow> memory \<Rightarrow> ly_ht \<Rightarrow> ly_dict_rec \<Rightarrow> 32 word \<Rightarrow> rec_pos option" where
  "lyht_find_pos val_equal mode m ht val_p hash =
     chain_find (\<lambda>i. val_equal m (Some val_p) (Some (rec_val (lyht_rec_at ht i))) mode None \<noteq> 0)
       (lyht_chain ht (lyht_bucket (ht_size ht) hash))"

text \<open>
  Modelled from the spec: \<open>lyht_find\<close> (hash_table.c, not among the sources), with the table's own
  callback and the mode 0 that the comment in \<open>lydict_resize_val_eq\<close> gives to finding.
  It returns the code and the match pointer.
\<close>

definition lyht_find ::
  "val_equal_cb \<Rightarrow> memory \<Rightarrow> ly_ht \<Rightarrow> ly_dict_rec \<Rightarrow> 32 word \<Rightarrow> LY_ERR \<times> rec_pos option" where
  "lyht_find val_equal m ht val_p hash =
     (case lyht_find_pos val_equal 0 m ht val_p hash of
        None \<Rightarrow> (LY_ENOTFOUND, None)
      | Some pos \<Rightarrow> (LY_SUCCESS, Some pos))"

text \<open>
  Modelled from the spec: the rebuild of a resize (hash_table.c, not among the sources).
  "Allocate a new bucket array of the target size and a record array (compacting out
  holes), re-hash every live record's cached hash against the new size, and rebuild every
  bucket chain and the free list from scratch." The records are walked in the order of
  \<open>LYHT_ITER_ALL_RECS\<close> and copied to the slots \<open>0, 1, ...\<close> of the new array, each into
  the chain of its hash under the new size; the other slots are empty and make the free
  list. The new array has a slot per bucket ("\<open>size\<close>: actually number of records
  allocated", says the header), and more if there are more records than that.
\<close>

definition lyht_rehash :: "nat \<Rightarrow> ly_ht_rec list \<Rightarrow> nat list list" where
  "lyht_rehash sz recs =
     map (\<lambda>b. filter (\<lambda>i. lyht_bucket sz (rec_hash (recs ! i)) = b) [0..<length recs]) [0..<sz]"

definition lyht_resize :: "ly_ht \<Rightarrow> nat \<Rightarrow> ly_ht" where
  "lyht_resize ht sz =
     (let recs = lyht_records ht
      in ht\<lparr>ht_size := sz,
            ht_free := [length recs..<sz],
            ht_buckets := lyht_rehash sz recs,
            ht_recs := map (\<lambda>r. \<lparr>rec_hash = rec_hash r, rec_val = rec_val r, rec_hits = 1\<rparr>) recs
                       @ replicate (sz - length recs) lyht_no_rec\<rparr>)"

datatype lyht_insert_result = Inserted rec_pos | AlreadyExists rec_pos | InsertError LY_ERR

text \<open>
  Modelled from the spec: the slot of a new record (hash_table.c, not among the sources).
  "Allocates a slot (reusing the free list if non-empty, else growing the record array)."
  Growing the array is an allocation, which the caller decides: \<open>rec_ok\<close>.
\<close>

definition lyht_new_rec :: "ly_ht \<Rightarrow> bool \<Rightarrow> (rec_pos \<times> ly_ht) option" where
  "lyht_new_rec ht rec_ok =
     (case ht_free ht of
        i # free \<Rightarrow> Some (i, ht\<lparr>ht_free := free\<rparr>)
      | [] \<Rightarrow> if rec_ok then Some (length (ht_recs ht), ht\<lparr>ht_recs := ht_recs ht @ [lyht_no_rec]\<rparr>)
              else None)"

text \<open>
  Modelled from the spec: \<open>lyht_insert_with_resize_cb\<close> (hash_table.c, not among the sources).
  "If find locates an equal existing record, returns AlreadyExists without mutating
  storage. Otherwise allocates a slot, copies the caller's record into it, appends it to
  the target bucket's chain, increments used, and, only after the insert is fully
  applied, checks the fill ratio; if growth is warranted and enabled, performs a full
  resize. On any allocation failure the resize is abandoned and the table remains valid at
  its previous size."
  \<open>resize_ok\<close> says whether the arrays of the resize could be had. The percentages are
  the header's: at 50 percent the flag goes from 1 to 2, at 75 percent the table doubles.
  After a resize the inserted record is found again with the resize callback in mode 0
  ("used when finding the original value again in the resized table"); mode 1 is "used
  when inserting new values".

  The member \<open>hits\<close> that \<open>lydict_clean\<close> reads is written by the table, in code that is
  not among the sources, and the spec does not name it. The spec has \<open>lydict_clean\<close>
  "scan every live record", and the loop of \<open>lydict_clean\<close> takes the slots with
  \<open>hits == 1\<close>: the model writes 1 to \<open>hits\<close> when a slot takes a record and 0 when
  the record is removed.
\<close>

definition lyht_insert_with_resize_cb ::
  "val_equal_cb \<Rightarrow> memory \<Rightarrow> ly_ht \<Rightarrow> ly_dict_rec \<Rightarrow> 32 word \<Rightarrow> val_equal_cb \<Rightarrow> bool \<Rightarrow> bool
     \<Rightarrow> lyht_insert_result \<times> ly_ht" where
  "lyht_insert_with_resize_cb val_equal m ht val_p hash resize_val_equal rec_ok resize_ok =
     (case lyht_find_pos val_equal 1 m ht val_p hash of
        Some pos \<Rightarrow> (AlreadyExists pos, ht)
      | None \<Rightarrow>
          (case lyht_new_rec ht rec_ok of
             None \<Rightarrow> (InsertError LY_EMEM, ht)
           | Some (pos, ht0) \<Rightarrow>
               let b = lyht_bucket (ht_size ht0) hash;
                   ht1 = ht0\<lparr>ht_used := ht_used ht0 + 1,
                             ht_buckets := (ht_buckets ht0)[b := lyht_chain ht0 b @ [pos]],
                             ht_recs := (ht_recs ht0)
                               [pos := \<lparr>rec_hash = hash, rec_val = val_p, rec_hits = 1\<rparr>]\<rparr>;
                   r = ht_used ht1 * LYHT_HUNDRED_PERCENTAGE div ht_size ht1;
                   ht2 = (if ht_resize ht1 = 1 \<and> LYHT_FIRST_SHRINK_PERCENTAGE \<le> r
                          then ht1\<lparr>ht_resize := 2\<rparr> else ht1)
               in if ht_resize ht2 = 2 \<and> LYHT_ENLARGE_PERCENTAGE \<le> r \<and> resize_ok then
                    let ht3 = lyht_resize ht2 (2 * ht_size ht2)
                    in (Inserted (case lyht_find_pos resize_val_equal 0 m ht3 val_p hash of
                                    Some p \<Rightarrow> p | None \<Rightarrow> pos), ht3)
                  else (Inserted pos, ht2)))"

text \<open>
  Modelled from the spec: \<open>lyht_remove_with_resize_cb\<close> (hash_table.c, not among the sources).
  "Unlinks the matching record from its bucket chain, returns the freed slot to the free
  list, decrements used, then evaluates shrink eligibility the mirror way insert evaluates
  growth": under 25 percent, with the flag at 2, the table halves, clamped to the floor.
  The freed slot keeps its bytes, but for \<open>hits\<close>.
\<close>

definition lyht_remove_with_resize_cb ::
  "val_equal_cb \<Rightarrow> memory \<Rightarrow> ly_ht \<Rightarrow> ly_dict_rec \<Rightarrow> 32 word \<Rightarrow> val_equal_cb \<Rightarrow> bool
     \<Rightarrow> LY_ERR \<times> ly_ht" where
  "lyht_remove_with_resize_cb val_equal m ht val_p hash resize_val_equal resize_ok =
     (case lyht_find_pos val_equal 1 m ht val_p hash of
        None \<Rightarrow> (LY_ENOTFOUND, ht)
      | Some pos \<Rightarrow>
          let b = lyht_bucket (ht_size ht) hash;
              ht1 = ht\<lparr>ht_used := ht_used ht - 1,
                       ht_free := pos # ht_free ht,
                       ht_buckets := (ht_buckets ht)[b := remove1 pos (lyht_chain ht b)],
                       ht_recs := (ht_recs ht)[pos := (lyht_get_rec (ht_recs ht) pos)\<lparr>rec_hits := 0\<rparr>]\<rparr>;
              r = ht_used ht1 * LYHT_HUNDRED_PERCENTAGE div ht_size ht1
          in if ht_resize ht1 = 2 \<and> r < LYHT_SHRINK_PERCENTAGE \<and> resize_ok then
               (LY_SUCCESS, lyht_resize ht1 (max LYHT_MIN_SIZE (ht_size ht1 div 2)))
             else (LY_SUCCESS, ht1))"

text \<open>
  Modelled from the spec: \<open>lyht_free\<close> (hash_table.c, not among the sources), called with no value
  callback. "Releases all backing storage. Does not free record payloads."
\<close>

definition lyht_free :: "world \<Rightarrow> world" where
  "lyht_free w = log_event HtFree w"

section \<open>The dictionary (dict.c)\<close>

text \<open>
  \<open>struct ly_dict\<close> is the table and a mutex; the mutex shows as the lock events of the
  trace. Of the context only the dictionary is used here.
\<close>

record ly_dict =
  hash_tab :: ly_ht

record ly_ctx =
  dict :: ly_dict

text \<open>
  \<open>lyht_hash\<close> is not among the sources and is a parameter: a function of the bytes hashed.
  \<open>const char **str_p\<close> is \<open>None\<close> when null, else \<open>Some\<close> of what the pointed-at
  variable holds; the functions return it as they leave it.
\<close>

type_synonym hash_fn = "char list \<Rightarrow> 32 word"

type_synonym str_out = "addr option option"

definition set_hash_tab :: "ly_ctx \<Rightarrow> ly_ht \<Rightarrow> ly_ctx" where
  "set_hash_tab ctx ht = ctx\<lparr>dict := (dict ctx)\<lparr>hash_tab := ht\<rparr>\<rparr>"

definition write_str_p :: "str_out \<Rightarrow> addr option \<Rightarrow> str_out" where
  "write_str_p str_p v = (case str_p of None \<Rightarrow> None | Some old \<Rightarrow> Some v)"

text \<open>
  \<open>dict_insert\<close> (lines 172-202). The hash is taken over \<open>len\<close> bytes of the value, the
  probe record carries the value with reference count 1. On \<open>LY_EEXIST\<close> the match gets
  \<open>refcount++\<close> and the value is freed; on another error the value is freed and the code
  returned; otherwise, and after \<open>LY_EEXIST\<close>, \<open>*str_p\<close> is the match's string.
\<close>

definition dict_insert ::
  "hash_fn \<Rightarrow> world \<Rightarrow> ly_ctx \<Rightarrow> addr \<Rightarrow> nat \<Rightarrow> str_out \<Rightarrow> bool \<Rightarrow> bool
     \<Rightarrow> LY_ERR \<times> world \<times> ly_ctx \<times> str_out" where
  "dict_insert hashf w ctx val len str_p rec_ok resize_ok =
     (let w1 = log_event LogDbg w;
          hash = hashf (take len (mem_read (w_mem w1) val));
          rec = \<lparr>dr_value = Some val, dr_refcount = 1\<rparr>
      in case lyht_insert_with_resize_cb lydict_val_eq (w_mem w1) (hash_tab (dict ctx)) rec hash
                lydict_resize_val_eq rec_ok resize_ok of
           (AlreadyExists match, ht) \<Rightarrow>
             let ht' = lyht_update_at ht match (\<lambda>d. d\<lparr>dr_refcount := dr_refcount d + 1\<rparr>);
                 w2 = free_ptr (Some val) w1
             in (LY_SUCCESS, w2, set_hash_tab ctx ht',
                 write_str_p str_p (dr_value (rec_val (lyht_rec_at ht' match))))
         | (InsertError ret, ht) \<Rightarrow>
             (ret, free_ptr (Some val) w1, set_hash_tab ctx ht, str_p)
         | (Inserted match, ht) \<Rightarrow>
             (LY_SUCCESS, w1, set_hash_tab ctx ht,
              write_str_p str_p (dr_value (rec_val (lyht_rec_at ht match)))))"

text \<open>
  What the allocator answers during one insert call: \<open>malloc\<close> of the private copy
  (\<open>None\<close> is failure, else the address of the new block), and the two allocations of the
  table.
\<close>

record alloc_env =
  env_malloc :: "addr option"
  env_rec_ok :: bool
  env_resize_ok :: bool

text \<open>
  \<open>lydict_insert\<close> (lines 204-232). \<open>LY_CHECK_ARG_RET\<close> (common.h, not among the sources) checks
  \<open>ctx\<close>, then \<open>str_p\<close>, and returns \<open>LY_EINVAL\<close> after logging the argument. A null
  value writes null to \<open>*str_p\<close>. A zero \<open>len\<close> becomes \<open>strlen(value)\<close>. The copy is
  \<open>len\<close> bytes of the value and a terminator, in the block \<open>malloc\<close> returned; copying
  more bytes than the value's block holds is undefined in C, the model copies what is there.
  \<open>size_t\<close> is kept as \<open>nat\<close>: a length that a live block can have does not make
  \<open>len + 1\<close> wrap.
\<close>

definition lydict_insert ::
  "hash_fn \<Rightarrow> world \<Rightarrow> ly_ctx option \<Rightarrow> addr option \<Rightarrow> nat \<Rightarrow> str_out \<Rightarrow> alloc_env
     \<Rightarrow> LY_ERR \<times> world \<times> ly_ctx option \<times> str_out" where
  "lydict_insert hashf w ctx val len str_p env =
     (case ctx of None \<Rightarrow> (LY_EINVAL, log_event LogArg w, ctx, str_p) | Some c \<Rightarrow>
      case str_p of None \<Rightarrow> (LY_EINVAL, log_event LogArg w, ctx, str_p) | Some old \<Rightarrow>
      case val of None \<Rightarrow> (LY_SUCCESS, w, ctx, Some None) | Some v \<Rightarrow>
        let len1 = (if len = 0 then strlen (mem_read (w_mem w) v) else len)
        in case env_malloc env of
             None \<Rightarrow> (LY_EMEM, log_event LogMem w, ctx, str_p)
           | Some value_copy \<Rightarrow>
               let w1 = w\<lparr>w_mem := (w_mem w)(value_copy \<mapsto> take len1 (mem_read (w_mem w) v) @ [NUL])\<rparr>;
                   w2 = log_event MutexLock w1;
                   (result, w3, c', str_p') =
                      dict_insert hashf w2 c value_copy len1 str_p (env_rec_ok env) (env_resize_ok env)
               in (result, log_event MutexUnlock w3, Some c', str_p'))"

text \<open>
  \<open>lydict_insert_zc\<close> (lines 234-251): the same checks, then \<open>dict_insert\<close> of the
  caller's own buffer with its \<open>strlen\<close>, under the lock.
\<close>

definition lydict_insert_zc ::
  "hash_fn \<Rightarrow> world \<Rightarrow> ly_ctx option \<Rightarrow> addr option \<Rightarrow> str_out \<Rightarrow> alloc_env
     \<Rightarrow> LY_ERR \<times> world \<times> ly_ctx option \<times> str_out" where
  "lydict_insert_zc hashf w ctx val str_p env =
     (case ctx of None \<Rightarrow> (LY_EINVAL, log_event LogArg w, ctx, str_p) | Some c \<Rightarrow>
      case str_p of None \<Rightarrow> (LY_EINVAL, log_event LogArg w, ctx, str_p) | Some old \<Rightarrow>
      case val of None \<Rightarrow> (LY_SUCCESS, w, ctx, Some None) | Some v \<Rightarrow>
        let w2 = log_event MutexLock w;
            (result, w3, c', str_p') =
               dict_insert hashf w2 c v (strlen (mem_read (w_mem w2) v)) str_p
                 (env_rec_ok env) (env_resize_ok env)
        in (result, log_event MutexUnlock w3, Some c', str_p'))"

text \<open>
  \<open>lydict_remove\<close> (lines 119-170). Null \<open>ctx\<close> or \<open>value\<close>: \<open>LY_SUCCESS\<close> at once.
  Else the hash of the string, a probe record with the caller's pointer, and under the lock
  \<open>lyht_find\<close>. Found: \<open>refcount--\<close>, and at zero the stored pointer is saved, the record
  removed from the table and the string freed. \<open>LY_ENOTFOUND\<close> is logged as an error,
  any other code as an internal one.
\<close>

definition lydict_remove ::
  "hash_fn \<Rightarrow> world \<Rightarrow> ly_ctx option \<Rightarrow> addr option \<Rightarrow> bool \<Rightarrow> LY_ERR \<times> world \<times> ly_ctx option" where
  "lydict_remove hashf w ctx val resize_ok =
     (case ctx of None \<Rightarrow> (LY_SUCCESS, w, ctx) | Some c \<Rightarrow>
      case val of None \<Rightarrow> (LY_SUCCESS, w, ctx) | Some v \<Rightarrow>
        let w1 = log_event LogDbg w;
            len = strlen (mem_read (w_mem w1) v);
            hash = hashf (take len (mem_read (w_mem w1) v));
            rec = \<lparr>dr_value = Some v, dr_refcount = 0\<rparr>;
            w2 = log_event MutexLock w1;
            ht = hash_tab (dict c)
        in case lyht_find lydict_val_eq (w_mem w2) ht rec hash of
             (LY_SUCCESS, None) \<Rightarrow>
               (LY_SUCCESS, log_event MutexUnlock (log_event LogInt w2), ctx)
           | (LY_SUCCESS, Some match) \<Rightarrow>
               let ht1 = lyht_update_at ht match (\<lambda>d. d\<lparr>dr_refcount := dr_refcount d - 1\<rparr>)
               in if dr_refcount (rec_val (lyht_rec_at ht1 match)) = 0 then
                    let val_p = dr_value (rec_val (lyht_rec_at ht1 match));
                        (ret, ht2) = lyht_remove_with_resize_cb lydict_val_eq (w_mem w2) ht1 rec hash
                                        lydict_resize_val_eq resize_ok;
                        w3 = free_ptr val_p w2
                    in if ret \<noteq> LY_SUCCESS
                       then (ret, log_event MutexUnlock (log_event LogInt w3), Some (set_hash_tab c ht2))
                       else (ret, log_event MutexUnlock w3, Some (set_hash_tab c ht2))
                  else (LY_SUCCESS, log_event MutexUnlock w2, Some (set_hash_tab c ht1))
           | (LY_ENOTFOUND, match) \<Rightarrow>
               (LY_ENOTFOUND,
                log_event MutexUnlock
                  (log_event (LogErr LY_ENOTFOUND (c_str (mem_read (w_mem w2) v))) w2), ctx)
           | (ret, match) \<Rightarrow>
               (ret, log_event MutexUnlock (log_event LogInt w2), ctx))"

text \<open>
  \<open>lydict_clean\<close> (lines 64-93). The loop visits the slots \<open>0 .. size-1\<close> of the record
  array; a slot with \<open>hits == 1\<close> is warned about, and its string is freed only when the
  file is compiled with \<open>NDEBUG\<close> (the \<open>#ifdef\<close> around \<open>free\<close>). Then the table is
  freed and the mutex destroyed. A null dictionary is logged and nothing else is done.
  When the record array has fewer than \<open>size\<close> slots the loop reads past its end, which
  is undefined in C: the result is \<open>None\<close>.
\<close>

definition lydict_clean_rec :: "bool \<Rightarrow> ly_ht_rec_hits \<Rightarrow> world \<Rightarrow> world" where
  "lydict_clean_rec ndebug rec w =
     (if rec_hits rec = 1 then
        let dict_rec = rec_val rec;
            w1 = log_event (LogWrn (dr_value dict_rec) (dr_refcount dict_rec)) w
        in if ndebug then free_ptr (dr_value dict_rec) w1 else w1
      else w)"

definition lydict_clean :: "bool \<Rightarrow> world \<Rightarrow> ly_dict option \<Rightarrow> world option" where
  "lydict_clean ndebug w d =
     (case d of None \<Rightarrow> Some (log_event LogArg w)
      | Some dc \<Rightarrow>
          if length (ht_recs (hash_tab dc)) < ht_size (hash_tab dc) then None
          else
            let w1 = fold (\<lambda>i. lydict_clean_rec ndebug (lyht_get_rec (ht_recs (hash_tab dc)) i))
                       [0..<ht_size (hash_tab dc)] w
            in Some (log_event MutexDestroy (lyht_free w1)))"


section \<open>What the statements below speak of\<close>

text \<open>
  Insert calls run one after the other, as the lock serialises them. A call is the input
  pointer, the length and what the allocator answers during the call; each call starts
  with \<open>*str_p\<close> null. The list of returned codes and output pointers comes back with the
  final state.
\<close>

type_synonym insert_call = "addr \<times> nat \<times> alloc_env"

fun lydict_insert_seq ::
  "hash_fn \<Rightarrow> world \<Rightarrow> ly_ctx option \<Rightarrow> insert_call list
     \<Rightarrow> (LY_ERR \<times> str_out) list \<times> world \<times> ly_ctx option" where
  "lydict_insert_seq hashf w ctx [] = ([], w, ctx)"
| "lydict_insert_seq hashf w ctx (call # calls) =
     (case call of (v, len, env) \<Rightarrow>
      case lydict_insert hashf w ctx (Some v) len (Some None) env of
        (ret, w', ctx', out) \<Rightarrow>
          (case lydict_insert_seq hashf w' ctx' calls of
             (rs, w'', ctx'') \<Rightarrow> ((ret, out) # rs, w'', ctx'')))"

text \<open>
  An insert call for the bytes \<open>S\<close> in the memory \<open>m\<close>: the input is a live block of at
  least \<open>len\<close> bytes (terminated when \<open>len\<close> is 0), its first \<open>len\<close> bytes (those before
  the terminator when \<open>len\<close> is 0) are \<open>S\<close>, and \<open>malloc\<close> returns null or a block that
  is not live.
\<close>

definition insert_call_ok :: "memory \<Rightarrow> char list \<Rightarrow> insert_call \<Rightarrow> bool" where
  "insert_call_ok m S call \<longleftrightarrow>
     (case call of (v, len, env) \<Rightarrow>
        (case m v of None \<Rightarrow> False
         | Some bs \<Rightarrow> len \<le> length bs \<and> (len = 0 \<longrightarrow> NUL \<in> set bs)
                      \<and> take (if len = 0 then strlen bs else len) bs = S)
        \<and> (case env_malloc env of None \<Rightarrow> True | Some a \<Rightarrow> m a = None))"

text \<open>The C string a table record holds (none for a null value pointer).\<close>

definition rec_string :: "memory \<Rightarrow> ly_ht_rec \<Rightarrow> char list option" where
  "rec_string m r = map_option (\<lambda>q. c_str (mem_read m q)) (dr_value (rec_val r))"

text \<open>The content \<open>s\<close> is present in the table: some record holds it.\<close>

definition dict_has :: "memory \<Rightarrow> ly_ht \<Rightarrow> char list \<Rightarrow> bool" where
  "dict_has m ht s \<longleftrightarrow> (\<exists>r \<in> set (lyht_records ht). rec_string m r = Some s)"

text \<open>
  The content \<open>s\<close> is found under the hash \<open>h\<close>: the first record of the chain of
  \<open>h\<close> that holds \<open>s\<close>, as the chain walk with either dictionary callback finds it.
\<close>

definition dict_find :: "memory \<Rightarrow> ly_ht \<Rightarrow> 32 word \<Rightarrow> char list \<Rightarrow> rec_pos option" where
  "dict_find m ht h s =
     chain_find (\<lambda>i. rec_string m (lyht_rec_at ht i) = Some s)
       (lyht_chain ht (lyht_bucket (ht_size ht) h))"

text \<open>
  The invariants of the spec's data model: the size is not zero and there is one chain per
  bucket; \<open>used\<close> counts the records; "every live record is reachable from exactly one
  bucket chain; every free record is reachable from the free list; the two sets partition
  all records"; every record sits in the chain of its cached hash. And the slots in use
  are those with \<open>hits\<close> 1.
\<close>

definition lyht_wf :: "ly_ht \<Rightarrow> bool" where
  "lyht_wf ht \<longleftrightarrow>
     0 < ht_size ht \<and> length (ht_buckets ht) = ht_size ht \<and>
     ht_used ht = length (lyht_live ht) \<and>
     distinct (lyht_live ht @ ht_free ht) \<and>
     set (lyht_live ht @ ht_free ht) = {..<length (ht_recs ht)} \<and>
     (\<forall>b \<in> {..<ht_size ht}. \<forall>i \<in> set (ht_buckets ht ! b).
        lyht_bucket (ht_size ht) (rec_hash (ht_recs ht ! i)) = b) \<and>
     (\<forall>i \<in> {..<length (ht_recs ht)}. (rec_hits (ht_recs ht ! i) = 1) = (i \<in> set (lyht_live ht)))"

text \<open>
  The dictionary owns its strings: the table is well formed and every record points at a
  live, terminated block.
\<close>

definition dict_ok :: "memory \<Rightarrow> ly_ht \<Rightarrow> bool" where
  "dict_ok m ht \<longleftrightarrow>
     lyht_wf ht \<and>
     (\<forall>r \<in> set (lyht_records ht). \<exists>q bs. dr_value (rec_val r) = Some q \<and> m q = Some bs \<and> NUL \<in> set bs)"

text \<open>A pointer at a record of the table: the index of a slot in use.\<close>

definition pos_ok :: "ly_ht \<Rightarrow> rec_pos \<Rightarrow> bool" where
  "pos_ok ht pos \<longleftrightarrow> pos \<in> set (lyht_live ht)"

text \<open>The warning \<open>lydict_clean\<close> logs for a record.\<close>

definition leak_warning :: "ly_ht_rec \<Rightarrow> event" where
  "leak_warning r = LogWrn (dr_value (rec_val r)) (dr_refcount (rec_val r))"

text \<open>
  What \<open>lydict_clean\<close> leaves when it returns: the trace, and the block at an address.
\<close>

definition trace_of :: "world option \<Rightarrow> event list option" where
  "trace_of r = map_option w_trace r"

definition mem_of :: "world option \<Rightarrow> addr \<Rightarrow> char list option option" where
  "mem_of r a = map_option (\<lambda>w. w_mem w a) r"

text \<open>The records of the dictionary of a context (none for a null context).\<close>

definition dict_records :: "ly_ctx option \<Rightarrow> ly_ht_rec list" where
  "dict_records ctx =
     (case ctx of None \<Rightarrow> [] | Some c \<Rightarrow> lyht_records (hash_tab (dict c)))"

text \<open>
  The states the closed statements below are evaluated at. The hash is the length of the
  bytes. The table has eight buckets and eight slots, with the resize flag 1 that
  \<open>lydict_init\<close> passes; the records given are those of the chain of bucket 4, in the
  slots \<open>0, 1, ...\<close>, and the other slots are on the free list. Then the record of the
  string at address 1 with a given reference count, a context around such a table, a
  world with an empty trace, and an allocator whose table allocations succeed.
\<close>

definition ex_hash :: hash_fn where
  "ex_hash bs = word_of_nat (length bs)"

definition ex_ht :: "ly_ht_rec list \<Rightarrow> ly_ht" where
  "ex_ht ch =
     \<lparr>ht_used = length ch, ht_size = 8, ht_resize = 1,
      ht_free = [length ch..<8],
      ht_buckets = [[], [], [], [], [0..<length ch], [], [], []],
      ht_recs = map (\<lambda>r. \<lparr>rec_hash = rec_hash r, rec_val = rec_val r, rec_hits = 1\<rparr>) ch
                @ replicate (8 - length ch) lyht_no_rec\<rparr>"

definition ex_eth0_n :: "32 word \<Rightarrow> ly_ht_rec" where
  "ex_eth0_n k = \<lparr>rec_hash = 4, rec_val = \<lparr>dr_value = Some 1, dr_refcount = k\<rparr>\<rparr>"

definition ex_ctx :: "ly_ht_rec list \<Rightarrow> ly_ctx" where
  "ex_ctx ch = \<lparr>dict = \<lparr>hash_tab = ex_ht ch\<rparr>\<rparr>"

definition ex_world :: "memory \<Rightarrow> world" where
  "ex_world m = \<lparr>w_mem = m, w_trace = []\<rparr>"

definition ex_env :: "addr option \<Rightarrow> alloc_env" where
  "ex_env a = \<lparr>env_malloc = a, env_rec_ok = True, env_resize_ok = True\<rparr>"

text \<open>
  The leak scenario: "eth0" is inserted into the empty table, \<open>malloc\<close> returning
  address 1, and \<open>lydict_clean\<close> is called on the dictionary with no remove in between.
\<close>

definition ex_insert_then_clean :: "bool \<Rightarrow> world option" where
  "ex_insert_then_clean ndebug =
     (case lydict_insert ex_hash (ex_world [100 \<mapsto> ''eth0'' @ [NUL]]) (Some (ex_ctx []))
             (Some 100) 0 (Some None) (ex_env (Some 1)) of
        (ret, w, ctx, out) \<Rightarrow> lydict_clean ndebug w (map_option dict ctx))"
section \<open>Facts about strings\<close>

lemma bytes_cmp_eq_0: "bytes_cmp xs ys = 0 \<longleftrightarrow> xs = ys"
  by (induction xs ys rule: bytes_cmp.induct) auto

lemma strcmp_eq_0: "strcmp s1 s2 = 0 \<longleftrightarrow> c_str s1 = c_str s2"
  by (simp add: strcmp_def bytes_cmp_eq_0)

section \<open>The two equality callbacks agree\<close>

text \<open>
  C4. For every pair of dictionary records with non-null string values and every value of
  the mode flag, \<open>lydict_resize_val_eq\<close> returns 1 exactly when \<open>lydict_val_eq\<close>
  returns 1, and both do so exactly when the two strings have the same bytes up to the
  terminator.
\<close>

theorem lydict_resize_val_eq_agrees:
  assumes "dr_value a = Some p" and "dr_value b = Some q"
  shows "(lydict_resize_val_eq m (Some a) (Some b) mode data = 1
            \<longleftrightarrow> lydict_val_eq m (Some a) (Some b) mode data = 1)
         \<and> (lydict_val_eq m (Some a) (Some b) mode data = 1
            \<longleftrightarrow> c_str (mem_read m p) = c_str (mem_read m q))"
  using assms by (simp add: lydict_resize_val_eq_def lydict_val_eq_def strcmp_eq_0)

theorem lydict_resize_val_eq_agrees_witness:
  "(lydict_resize_val_eq [1 \<mapsto> ''eth0'' @ [NUL], 2 \<mapsto> ''eth0'' @ [NUL] @ ''x'']
        (Some \<lparr>dr_value = Some 1, dr_refcount = 1\<rparr>)
        (Some \<lparr>dr_value = Some 2, dr_refcount = 0\<rparr>) 1 None = 1
      \<longleftrightarrow> lydict_val_eq [1 \<mapsto> ''eth0'' @ [NUL], 2 \<mapsto> ''eth0'' @ [NUL] @ ''x'']
        (Some \<lparr>dr_value = Some 1, dr_refcount = 1\<rparr>)
        (Some \<lparr>dr_value = Some 2, dr_refcount = 0\<rparr>) 1 None = 1)
   \<and> lydict_val_eq [1 \<mapsto> ''eth0'' @ [NUL], 2 \<mapsto> ''eth0'' @ [NUL] @ ''x'']
        (Some \<lparr>dr_value = Some 1, dr_refcount = 1\<rparr>)
        (Some \<lparr>dr_value = Some 2, dr_refcount = 0\<rparr>) 1 None = 1"
  using lydict_resize_val_eq_agrees
    [of "\<lparr>dr_value = Some 1, dr_refcount = 1\<rparr>" 1 "\<lparr>dr_value = Some 2, dr_refcount = 0\<rparr>" 2
        "[1 \<mapsto> ''eth0'' @ [NUL], 2 \<mapsto> ''eth0'' @ [NUL] @ ''x'']" 1 None]
  by (simp add: mem_read_def c_str_def NUL_def)

section \<open>The state after a log line or a free\<close>

lemma w_mem_log_event [simp]: "w_mem (log_event e w) = w_mem w"
  by (simp add: log_event_def)

lemma w_trace_log_event [simp]: "w_trace (log_event e w) = w_trace w @ [e]"
  by (simp add: log_event_def)

lemma w_trace_free_ptr [simp]: "w_trace (free_ptr p w) = w_trace w"
  by (simp add: free_ptr_def split: option.split)

lemma w_mem_free_ptr_None [simp]: "w_mem (free_ptr None w) = w_mem w"
  by (simp add: free_ptr_def)

lemma w_mem_free_ptr_Some [simp]: "w_mem (free_ptr (Some a) w) = (w_mem w)(a := None)"
  by (simp add: free_ptr_def mem_free_def)

section \<open>Null arguments and the failed allocation\<close>

text \<open>
  C10. \<open>lydict_insert\<close> and \<open>lydict_insert_zc\<close> called with a null \<open>str_p\<close> return
  \<open>LY_EINVAL\<close>, whatever the other arguments are; the context comes back as it was, the
  memory is the same, and the trace grows by the argument log line only, so the lock is
  not taken.
\<close>

theorem lydict_insert_null_str_p:
  "lydict_insert hashf w ctx val len None env = (LY_EINVAL, log_event LogArg w, ctx, None)
   \<and> lydict_insert_zc hashf w ctx val None env = (LY_EINVAL, log_event LogArg w, ctx, None)
   \<and> w_mem (log_event LogArg w) = w_mem w
   \<and> w_trace (log_event LogArg w) = w_trace w @ [LogArg]"
  by (simp add: lydict_insert_def lydict_insert_zc_def split: option.split)

theorem lydict_insert_null_str_p_witness:
  "lydict_insert ex_hash \<lparr>w_mem = [100 \<mapsto> ''eth0'' @ [NUL]], w_trace = []\<rparr>
      (Some (ex_ctx [])) (Some 100) 0 None (ex_env (Some 1))
     = (LY_EINVAL, \<lparr>w_mem = [100 \<mapsto> ''eth0'' @ [NUL]], w_trace = [LogArg]\<rparr>,
        Some (ex_ctx []), None)"
  using lydict_insert_null_str_p
    [of ex_hash "\<lparr>w_mem = [100 \<mapsto> ''eth0'' @ [NUL]], w_trace = []\<rparr>"
        "Some (ex_ctx [])" "Some 100" 0 "ex_env (Some 1)"]
  by (simp add: log_event_def)

text \<open>
  C9. With a context and an output pointer, \<open>lydict_insert\<close> (and likewise
  \<open>lydict_insert_zc\<close>) of a null string writes null to \<open>*str_p\<close> and returns
  \<open>LY_SUCCESS\<close>; \<open>lydict_remove\<close> with a null context or
  a null string returns \<open>LY_SUCCESS\<close>. In each case the world (memory and trace) and the
  context are the ones passed in: nothing is stored, and no lock event is written.
\<close>

theorem lydict_null_inputs_are_noops:
  "lydict_insert hashf w (Some c) None len (Some old) env = (LY_SUCCESS, w, Some c, Some None)
   \<and> lydict_insert_zc hashf w (Some c) None (Some old) env = (LY_SUCCESS, w, Some c, Some None)
   \<and> lydict_remove hashf w None val resize_ok = (LY_SUCCESS, w, None)
   \<and> lydict_remove hashf w ctx None resize_ok = (LY_SUCCESS, w, ctx)"
  by (simp add: lydict_insert_def lydict_insert_zc_def lydict_remove_def split: option.split)

theorem lydict_null_inputs_are_noops_witness:
  "lydict_insert ex_hash \<lparr>w_mem = [1 \<mapsto> ''eth0'' @ [NUL]], w_trace = []\<rparr>
      (Some (ex_ctx [ex_eth0_n 1])) None 0 (Some (Some 7)) (ex_env (Some 2))
     = (LY_SUCCESS, \<lparr>w_mem = [1 \<mapsto> ''eth0'' @ [NUL]], w_trace = []\<rparr>,
        Some (ex_ctx [ex_eth0_n 1]), Some None)
   \<and> lydict_remove ex_hash \<lparr>w_mem = [1 \<mapsto> ''eth0'' @ [NUL]], w_trace = []\<rparr>
      (Some (ex_ctx [ex_eth0_n 1])) None True
     = (LY_SUCCESS, \<lparr>w_mem = [1 \<mapsto> ''eth0'' @ [NUL]], w_trace = []\<rparr>,
        Some (ex_ctx [ex_eth0_n 1]))
   \<and> lydict_remove ex_hash \<lparr>w_mem = [1 \<mapsto> ''eth0'' @ [NUL]], w_trace = []\<rparr>
      None (Some 1) True
     = (LY_SUCCESS, \<lparr>w_mem = [1 \<mapsto> ''eth0'' @ [NUL]], w_trace = []\<rparr>, None)"
  using lydict_null_inputs_are_noops
    [of ex_hash "\<lparr>w_mem = [1 \<mapsto> ''eth0'' @ [NUL]], w_trace = []\<rparr>"
        "ex_ctx [ex_eth0_n 1]" 0 "Some 7" "ex_env (Some 2)" "Some 1" True
        "Some (ex_ctx [ex_eth0_n 1])"]
  by simp

text \<open>
  C8. When \<open>malloc\<close> of the private copy fails, \<open>lydict_insert\<close> returns \<open>LY_EMEM\<close>;
  the context (and with it the table) and \<open>*str_p\<close> come back as they were, the memory is
  the same, and the trace grows by the memory log line only: the lock is not taken.
\<close>

theorem lydict_insert_malloc_failure:
  assumes "env_malloc env = None"
  shows "lydict_insert hashf w (Some c) (Some v) len (Some old) env
           = (LY_EMEM, log_event LogMem w, Some c, Some old)
         \<and> w_mem (log_event LogMem w) = w_mem w
         \<and> w_trace (log_event LogMem w) = w_trace w @ [LogMem]"
  using assms by (simp add: lydict_insert_def Let_def)

theorem lydict_insert_malloc_failure_witness:
  "lydict_insert ex_hash \<lparr>w_mem = [100 \<mapsto> ''eth0'' @ [NUL]], w_trace = []\<rparr>
      (Some (ex_ctx [])) (Some 100) 0 (Some None) (ex_env None)
     = (LY_EMEM, \<lparr>w_mem = [100 \<mapsto> ''eth0'' @ [NUL]], w_trace = [LogMem]\<rparr>,
        Some (ex_ctx []), Some None)"
  using lydict_insert_malloc_failure
    [of "ex_env None" ex_hash "\<lparr>w_mem = [100 \<mapsto> ''eth0'' @ [NUL]], w_trace = []\<rparr>"
        "ex_ctx []" 100 0 None]
  by (simp add: ex_env_def log_event_def)

section \<open>The chains and the slots of the table\<close>

lemma lyht_bucket_less: "0 < sz \<Longrightarrow> lyht_bucket sz h < sz"
proof -
  assume sz: "0 < sz"
  let ?w = "word_of_nat sz :: 32 word"
  have le: "unat (h AND (?w - 1)) \<le> unat (?w - 1)"
    by (simp add: word_le_nat_alt [symmetric] word_and_le1)
  show ?thesis
  proof (cases "?w = 0")
    case True
    then have "2 ^ 32 dvd sz"
      by (simp add: word_of_nat_eq_0_iff)
    then have "2 ^ 32 \<le> sz" using sz by (auto dest: dvd_imp_le)
    moreover have "unat (h AND (?w - 1)) < 2 ^ 32"
      using unsigned_less [of "h AND (?w - 1)"] by simp
    ultimately show ?thesis by (simp add: lyht_bucket_def)
  next
    case False
    then have "unat (?w - 1) = unat ?w - 1"
      by (simp add: unat_minus_one)
    moreover have "unat ?w \<le> sz"
      by (simp add: unat_of_nat)
    moreover have "0 < unat ?w" using False by (simp add: unat_gt_0)
    ultimately show ?thesis using le by (simp add: lyht_bucket_def)
  qed
qed

lemma val_eq_rec_string:
  "lydict_val_eq m (Some \<lparr>dr_value = Some p, dr_refcount = k\<rparr>) (Some (rec_val r)) mode data \<noteq> 0
     \<longleftrightarrow> rec_string m r = Some (c_str (mem_read m p))"
  by (auto simp: lydict_val_eq_def rec_string_def strcmp_eq_0 split: option.split)

lemma resize_val_eq_rec_string:
  "lydict_resize_val_eq m (Some \<lparr>dr_value = Some p, dr_refcount = k\<rparr>) (Some (rec_val r)) mode data \<noteq> 0
     \<longleftrightarrow> rec_string m r = Some (c_str (mem_read m p))"
  by (auto simp: lydict_resize_val_eq_def lydict_val_eq_def rec_string_def strcmp_eq_0
      split: option.split)

lemma chain_find_Some: "chain_find P xs = Some i \<Longrightarrow> i \<in> set xs \<and> P i"
  by (induction xs) (auto split: if_splits)

lemma chain_find_None: "chain_find P xs = None \<longleftrightarrow> (\<forall>i \<in> set xs. \<not> P i)"
  by (induction xs) auto

lemma chain_find_cong:
  "(\<And>i. i \<in> set xs \<Longrightarrow> P i = Q i) \<Longrightarrow> chain_find P xs = chain_find Q xs"
  by (induction xs) auto

lemma lyht_find_pos_val_eq:
  "lyht_find_pos lydict_val_eq mode m ht \<lparr>dr_value = Some p, dr_refcount = k\<rparr> h =
     dict_find m ht h (c_str (mem_read m p))"
  by (simp add: lyht_find_pos_def dict_find_def val_eq_rec_string)

lemma lyht_find_pos_resize_val_eq:
  "lyht_find_pos lydict_resize_val_eq mode m ht \<lparr>dr_value = Some p, dr_refcount = k\<rparr> h =
     dict_find m ht h (c_str (mem_read m p))"
  by (simp add: lyht_find_pos_def dict_find_def resize_val_eq_rec_string)

lemma lyht_get_rec_nth [simp]: "i < length recs \<Longrightarrow> lyht_get_rec recs i = recs ! i"
  by (simp add: lyht_get_rec_def)

lemma lyht_rec_of_simps [simp]:
  "rec_hash (lyht_rec_of s) = rec_hash s" "rec_val (lyht_rec_of s) = rec_val s"
  by (simp_all add: lyht_rec_of_def)

lemma concat_list_update:
  "i < length xss \<Longrightarrow>
     concat (xss[i := ys]) = concat (take i xss) @ ys @ concat (drop (Suc i) xss)"
  by (simp add: upd_conv_take_nth_drop)

lemma concat_nth_split:
  "i < length xss \<Longrightarrow>
     concat xss = concat (take i xss) @ xss ! i @ concat (drop (Suc i) xss)"
  using concat_list_update [of i xss "xss ! i"] by simp

lemma mset_concat_list_update:
  "i < length xss \<Longrightarrow>
     mset (concat (xss[i := ys])) + mset (xss ! i) = mset (concat xss) + mset ys"
  by (simp add: concat_list_update) (simp add: concat_nth_split [of i xss])

lemma mset_concat_rehash_gen:
  "mset (concat (map (\<lambda>b. filter (\<lambda>r. f r = b) recs) [0..<n])) = mset (filter (\<lambda>r. f r < n) recs)"
proof (induction n)
  case 0
  then show ?case by simp
next
  case (Suc n)
  have "mset (filter (\<lambda>r. f r < Suc n) recs) = mset (filter (\<lambda>r. f r < n) recs) + mset (filter (\<lambda>r. f r = n) recs)"
    by (induction recs) auto
  with Suc show ?case by simp
qed

lemma mset_lyht_rehash:
  "0 < sz \<Longrightarrow> mset (concat (lyht_rehash sz recs)) = mset [0..<length recs]"
  by (simp add: lyht_rehash_def mset_concat_rehash_gen lyht_bucket_less)

text \<open>
  The slots in use and the free slots partition the indexes of the record array: said
  with multisets.
\<close>

lemma partition_iff_mset:
  "distinct xs \<and> set xs = {..<n} \<longleftrightarrow> mset xs = mset [0..<n]"
proof
  assume a: "distinct xs \<and> set xs = {..<n}"
  then have d: "distinct xs" by (rule conjunct1)
  from a have s: "set xs = set [0..<n]" by (simp only: set_upt atLeast0LessThan)
  from set_eq_iff_mset_eq_distinct [OF d distinct_upt, of 0 n] s
  show "mset xs = mset [0..<n]" by (rule iffD1)
next
  assume m: "mset xs = mset [0..<n]"
  from mset_eq_setD [OF m] have "set xs = {..<n}"
    by (simp only: set_upt atLeast0LessThan)
  moreover from mset_eq_imp_distinct_iff [OF m] have "distinct xs"
    by (simp only: distinct_upt)
  ultimately show "distinct xs \<and> set xs = {..<n}" by (rule conjI [rotated])
qed

lemma lyht_wf_iff:
  "lyht_wf ht \<longleftrightarrow>
     0 < ht_size ht \<and> length (ht_buckets ht) = ht_size ht \<and>
     ht_used ht = length (lyht_live ht) \<and>
     mset (lyht_live ht) + mset (ht_free ht) = mset [0..<length (ht_recs ht)] \<and>
     (\<forall>b < ht_size ht. \<forall>i \<in> set (ht_buckets ht ! b).
        lyht_bucket (ht_size ht) (rec_hash (ht_recs ht ! i)) = b) \<and>
     (\<forall>i < length (ht_recs ht). (rec_hits (ht_recs ht ! i) = 1) = (i \<in> set (lyht_live ht)))"
proof -
  have part: "(distinct (lyht_live ht @ ht_free ht)
                 \<and> set (lyht_live ht @ ht_free ht) = {..<length (ht_recs ht)} \<and> R)
              = (mset (lyht_live ht) + mset (ht_free ht) = mset [0..<length (ht_recs ht)] \<and> R)" for R
    using partition_iff_mset [of "lyht_live ht @ ht_free ht" "length (ht_recs ht)"]
    by (simp only: mset_append conj_assoc [symmetric])
  have bl: "(\<forall>x \<in> {..<n}. P x) = (\<forall>x < n. P x)" for P and n :: nat
    by (simp only: Ball_def lessThan_iff)
  show ?thesis
    by (simp only: lyht_wf_def part bl)
qed

lemma in_live_iff:
  "i \<in> set (lyht_live ht) \<longleftrightarrow> (\<exists>b < length (ht_buckets ht). i \<in> set (ht_buckets ht ! b))"
proof
  assume "i \<in> set (lyht_live ht)"
  then obtain ch where "ch \<in> set (ht_buckets ht)" "i \<in> set ch"
    by (auto simp: lyht_live_def)
  then show "\<exists>b < length (ht_buckets ht). i \<in> set (ht_buckets ht ! b)"
    by (auto simp: in_set_conv_nth)
next
  assume "\<exists>b < length (ht_buckets ht). i \<in> set (ht_buckets ht ! b)"
  then obtain b where "b < length (ht_buckets ht)" "i \<in> set (ht_buckets ht ! b)" by blast
  then show "i \<in> set (lyht_live ht)"
    using nth_mem [of b "ht_buckets ht"] by (auto simp: lyht_live_def)
qed

lemma lyht_chain_subset: "set (lyht_chain ht b) \<subseteq> set (lyht_live ht)"
  by (auto simp: lyht_chain_def in_live_iff)

lemma live_less:
  assumes "lyht_wf ht" and "i \<in> set (lyht_live ht)"
  shows "i < length (ht_recs ht)"
proof -
  from assms(1) have "mset (lyht_live ht) + mset (ht_free ht) = mset [0..<length (ht_recs ht)]"
    by (simp add: lyht_wf_iff)
  from mset_eq_setD [OF this [unfolded mset_append [symmetric]]] assms(2)
  show ?thesis by auto
qed

lemma live_distinct: "lyht_wf ht \<Longrightarrow> distinct (lyht_live ht)"
  by (simp add: lyht_wf_def)

lemma free_not_live:
  "lyht_wf ht \<Longrightarrow> i \<in> set (ht_free ht) \<Longrightarrow> i \<notin> set (lyht_live ht)"
  by (auto simp: lyht_wf_def)

lemma in_records_iff:
  "r \<in> set (lyht_records ht) \<longleftrightarrow> (\<exists>i \<in> set (lyht_live ht). r = lyht_rec_at ht i)"
  by (auto simp: lyht_records_def lyht_rec_at_def)

lemma pos_ok_in_records:
  "pos_ok ht pos \<Longrightarrow> lyht_rec_at ht pos \<in> set (lyht_records ht)"
  by (auto simp: in_records_iff pos_ok_def)

lemma live_chain:
  assumes "lyht_wf ht" and "i \<in> set (lyht_live ht)"
  shows "i \<in> set (lyht_chain ht (lyht_bucket (ht_size ht) (rec_hash (lyht_rec_at ht i))))"
proof -
  from assms(2) obtain b where b: "b < length (ht_buckets ht)" "i \<in> set (ht_buckets ht ! b)"
    by (auto simp: in_live_iff)
  from live_less [OF assms] have "rec_hash (lyht_rec_at ht i) = rec_hash (ht_recs ht ! i)"
    by (simp add: lyht_rec_at_def)
  with assms(1) b have "lyht_bucket (ht_size ht) (rec_hash (lyht_rec_at ht i)) = b"
    by (simp add: lyht_wf_iff)
  with b show ?thesis by (simp add: lyht_chain_def)
qed

lemma dict_find_Some:
  assumes "dict_find m ht h s = Some pos"
  shows "pos_ok ht pos" and "rec_string m (lyht_rec_at ht pos) = Some s"
    and "pos \<in> set (lyht_chain ht (lyht_bucket (ht_size ht) h))"
  using chain_find_Some [OF assms [unfolded dict_find_def]] lyht_chain_subset
  by (auto simp: pos_ok_def)

lemma dict_find_None_absent:
  assumes "\<not> dict_has m ht s"
  shows "dict_find m ht h s = None"
proof -
  have "rec_string m (lyht_rec_at ht i) \<noteq> Some s"
    if "i \<in> set (lyht_chain ht (lyht_bucket (ht_size ht) h))" for i
  proof -
    from that lyht_chain_subset have "pos_ok ht i" by (auto simp: pos_ok_def)
    from pos_ok_in_records [OF this] assms show ?thesis by (auto simp: dict_has_def)
  qed
  then show ?thesis by (simp add: dict_find_def chain_find_None)
qed

lemma dict_find_present:
  assumes "lyht_wf ht" and "r \<in> set (lyht_records ht)" and "rec_string m r = Some s"
  shows "\<exists>pos. dict_find m ht (rec_hash r) s = Some pos"
proof -
  from assms(2) obtain i where i: "i \<in> set (lyht_live ht)" "r = lyht_rec_at ht i"
    by (auto simp: in_records_iff)
  from live_chain [OF assms(1) i(1)] assms(3) i(2)
  have "chain_find (\<lambda>i. rec_string m (lyht_rec_at ht i) = Some s)
          (lyht_chain ht (lyht_bucket (ht_size ht) (rec_hash r))) \<noteq> None"
    by (auto simp: chain_find_None)
  then show ?thesis by (auto simp: dict_find_def)
qed

lemma dict_find_unique:
  assumes "lyht_wf ht" and "r \<in> set (lyht_records ht)" and "rec_string m r = Some s"
    and "\<And>r'. r' \<in> set (lyht_records ht) \<Longrightarrow> rec_string m r' = Some s \<Longrightarrow> r' = r"
  shows "\<exists>pos. dict_find m ht (rec_hash r) s = Some pos \<and> pos_ok ht pos \<and> lyht_rec_at ht pos = r"
proof -
  from dict_find_present [OF assms(1-3)] obtain pos
    where pos: "dict_find m ht (rec_hash r) s = Some pos" by blast
  from dict_find_Some [OF pos]
  have ok: "pos_ok ht pos" and str: "rec_string m (lyht_rec_at ht pos) = Some s" by simp_all
  from assms(4) [OF pos_ok_in_records [OF ok] str] pos ok show ?thesis by blast
qed

lemma map_upd_notin: "p \<notin> set xs \<Longrightarrow> map (f(p := y)) xs = map f xs"
  by (intro map_cong) auto

lemma mset_map_upd_distinct:
  "distinct xs \<Longrightarrow> p \<in> set xs \<Longrightarrow>
     mset (map (f(p := y)) xs) + {#f p#} = mset (map f xs) + {#y#}"
proof (induction xs)
  case Nil
  then show ?case by simp
next
  case (Cons x xs)
  show ?case
  proof (cases "x = p")
    case True
    with Cons.prems have "p \<notin> set xs" by simp
    then have e: "map (f(p := y)) xs = map f xs" by (rule map_upd_notin)
    have l: "mset (map (f(p := y)) (p # xs)) = add_mset y (mset (map f xs))"
      by (simp only: list.map fun_upd_same e mset.simps)
    have r: "mset (map f (p # xs)) = add_mset (f p) (mset (map f xs))"
      by (simp only: list.map mset.simps)
    show ?thesis unfolding True l r by simp
  next
    case False
    with Cons.prems have "distinct xs" "p \<in> set xs" by simp_all
    from Cons.IH [OF this] False show ?thesis by simp
  qed
qed

lemma lyht_live_recs_upd [simp]: "lyht_live (ht\<lparr>ht_recs := r\<rparr>) = lyht_live ht"
  by (simp add: lyht_live_def)

lemma lyht_chain_recs_upd [simp]: "lyht_chain (ht\<lparr>ht_recs := r\<rparr>) b = lyht_chain ht b"
  by (simp add: lyht_chain_def)

lemma update_at_props:
  assumes wf: "lyht_wf ht" and ok: "pos_ok ht pos"
  shows "lyht_wf (lyht_update_at ht pos f)"
    and "lyht_rec_at (lyht_update_at ht pos f) pos
           = (lyht_rec_at ht pos)\<lparr>rec_val := f (rec_val (lyht_rec_at ht pos))\<rparr>"
    and "mset (lyht_records (lyht_update_at ht pos f)) + {#lyht_rec_at ht pos#}
           = mset (lyht_records ht)
             + {#(lyht_rec_at ht pos)\<lparr>rec_val := f (rec_val (lyht_rec_at ht pos))\<rparr>#}"
    and "ht_size (lyht_update_at ht pos f) = ht_size ht"
    and "lyht_live (lyht_update_at ht pos f) = lyht_live ht"
proof -
  let ?recs = "ht_recs ht"
  let ?s = "?recs ! pos"
  let ?s' = "?s\<lparr>rec_val := f (rec_val ?s)\<rparr>"
  let ?ht' = "lyht_update_at ht pos f"
  let ?g = "\<lambda>i. lyht_rec_of (lyht_get_rec ?recs i)"
  let ?r' = "(lyht_rec_at ht pos)\<lparr>rec_val := f (rec_val (lyht_rec_at ht pos))\<rparr>"
  from ok have live: "pos \<in> set (lyht_live ht)" by (simp add: pos_ok_def)
  from live_less [OF wf live] have lt: "pos < length ?recs" .
  have upd: "?ht' = ht\<lparr>ht_recs := ?recs[pos := ?s']\<rparr>"
    using lt by (simp add: lyht_update_at_def)
  show "ht_size ?ht' = ht_size ht" by (simp add: upd)
  show lv: "lyht_live ?ht' = lyht_live ht" by (simp add: upd)
  have r': "lyht_rec_of ?s' = ?r'"
    using lt by (simp add: lyht_rec_at_def lyht_rec_of_def)
  show at: "lyht_rec_at ?ht' pos = ?r'"
    using lt by (simp add: upd lyht_rec_at_def r' [unfolded lyht_rec_at_def])
  have get: "(\<lambda>i. lyht_rec_of (lyht_get_rec (?recs[pos := ?s']) i)) = ?g(pos := ?r')"
    unfolding r' [symmetric] using lt by (auto simp: fun_eq_iff lyht_get_rec_def)
  have recs': "lyht_records ?ht' = map (?g(pos := ?r')) (lyht_live ht)"
    unfolding lyht_records_def lv upd by (simp add: get)
  have gp: "?g pos = lyht_rec_at ht pos" by (simp add: lyht_rec_at_def)
  from mset_map_upd_distinct [OF live_distinct [OF wf] live, of ?g ?r']
  show "mset (lyht_records ?ht') + {#lyht_rec_at ht pos#} = mset (lyht_records ht) + {#?r'#}"
    unfolding recs' gp by (simp only: lyht_records_def)
  have nth: "rec_hash (?recs[pos := ?s'] ! i) = rec_hash (?recs ! i)"
            "rec_hits (?recs[pos := ?s'] ! i) = rec_hits (?recs ! i)" for i
    using lt by (cases "i = pos"; simp)+
  from wf have "lyht_wf (ht\<lparr>ht_recs := ?recs[pos := ?s']\<rparr>)"
    unfolding lyht_wf_iff by (simp add: nth)
  then show "lyht_wf ?ht'" by (simp only: upd)
qed

lemma rec_at_update_other:
  "i \<noteq> pos \<Longrightarrow> lyht_rec_at (lyht_update_at ht pos f) i = lyht_rec_at ht i"
  by (simp add: lyht_update_at_def lyht_rec_at_def lyht_get_rec_def)

lemma rec_string_update_at:
  assumes f: "\<And>d. dr_value (f d) = dr_value d"
  shows "rec_string m (lyht_rec_at (lyht_update_at ht pos f) i) = rec_string m (lyht_rec_at ht i)"
proof (cases "i = pos \<and> pos < length (ht_recs ht)")
  case True
  then show ?thesis
    by (simp add: lyht_update_at_def lyht_rec_at_def rec_string_def f)
next
  case False
  then show ?thesis
    by (auto simp: lyht_update_at_def lyht_rec_at_def lyht_get_rec_def)
qed

lemma dict_find_update_at:
  assumes f: "\<And>d. dr_value (f d) = dr_value d"
  shows "dict_find m (lyht_update_at ht pos f) h s = dict_find m ht h s"
proof -
  have "lyht_chain (lyht_update_at ht pos f) b = lyht_chain ht b" for b
    by (simp add: lyht_update_at_def lyht_chain_def)
  moreover have "ht_size (lyht_update_at ht pos f) = ht_size ht"
    by (simp add: lyht_update_at_def)
  ultimately show ?thesis
    by (simp add: dict_find_def rec_string_update_at [OF f])
qed


section \<open>Resize, insert and remove keep the table well formed\<close>

declare mset_upt [simp del]

lemma lyht_live_simps [simp]:
  "lyht_live (ht\<lparr>ht_used := u\<rparr>) = lyht_live ht"
  "lyht_live (ht\<lparr>ht_resize := f\<rparr>) = lyht_live ht"
  "lyht_live (ht\<lparr>ht_free := fr\<rparr>) = lyht_live ht"
  "lyht_live (ht\<lparr>ht_size := sz\<rparr>) = lyht_live ht"
  "lyht_live (ht\<lparr>ht_buckets := bs\<rparr>) = concat bs"
  by (simp_all add: lyht_live_def)

lemma lyht_wf_resize:
  assumes used: "ht_used ht = length (lyht_live ht)" and sz: "0 < sz"
  shows "lyht_wf (lyht_resize ht sz)"
    and "mset (lyht_records (lyht_resize ht sz)) = mset (lyht_records ht)"
proof -
  define recs where "recs = lyht_records ht"
  define n where "n = length recs"
  define slots where "slots = map (\<lambda>r. \<lparr>rec_hash = rec_hash r, rec_val = rec_val r, rec_hits = 1\<rparr>) recs
                       @ replicate (sz - n) lyht_no_rec"
  define ht' where "ht' = lyht_resize ht sz"
  have ht': "ht' = ht\<lparr>ht_size := sz, ht_free := [n..<sz], ht_buckets := lyht_rehash sz recs,
                      ht_recs := slots\<rparr>"
    by (simp add: ht'_def lyht_resize_def Let_def recs_def n_def slots_def)
  have n: "n = length (lyht_live ht)" by (simp add: n_def recs_def lyht_records_def)
  have live': "lyht_live ht' = concat (lyht_rehash sz recs)" by (simp add: ht')
  have mlive: "mset (lyht_live ht') = mset [0..<n]"
    unfolding live' n_def using sz by (rule mset_lyht_rehash)
  from mset_eq_setD [OF mlive] have slive: "set (lyht_live ht') = {..<n}"
    by (simp only: set_upt atLeast0LessThan)
  from arg_cong [OF mlive, of size] have llive: "length (lyht_live ht') = n" by simp
  have lslots: "length slots = n + (sz - n)" by (simp add: slots_def n_def)
  have slot_lt: "slots ! i = \<lparr>rec_hash = rec_hash (recs ! i), rec_val = rec_val (recs ! i), rec_hits = 1\<rparr>"
    if "i < n" for i
    using that by (simp add: slots_def n_def nth_append)
  have slot_ge: "slots ! i = lyht_no_rec" if "n \<le> i" "i < length slots" for i
    using that by (simp add: slots_def n_def nth_append)
  have rs: "ht_recs ht' = slots" by (simp add: ht')
  have fr: "ht_free ht' = [n..<sz]" and lr: "length (ht_recs ht') = n + (sz - n)"
    by (simp_all add: ht' lslots)
  have part: "mset (lyht_live ht') + mset (ht_free ht') = mset [0..<length (ht_recs ht')]"
  proof (cases "n \<le> sz")
    case True
    then obtain k where k: "sz = n + k" by (auto dest: le_Suc_ex)
    have "[0..<n] @ [n..<sz] = [0..<sz]"
      unfolding k using upt_add_eq_append [of 0 n k] by simp
    then have "mset [0..<n] + mset [n..<sz] = mset [0..<sz]"
      by (simp only: mset_append [symmetric])
    with True show ?thesis unfolding mlive fr lr by simp
  next
    case False
    then show ?thesis unfolding mlive fr lr by simp
  qed
  have place: "lyht_bucket (ht_size ht') (rec_hash (ht_recs ht' ! i)) = b"
    if "b < ht_size ht'" "i \<in> set (ht_buckets ht' ! b)" for b i
  proof -
    from that have b: "b < sz" and "i \<in> set (lyht_rehash sz recs ! b)" by (simp_all add: ht')
    then have i: "i < n" "lyht_bucket sz (rec_hash (recs ! i)) = b"
      by (simp_all add: lyht_rehash_def n_def)
    then show ?thesis by (simp add: ht' slot_lt)
  qed
  have hits: "(rec_hits (ht_recs ht' ! i) = 1) = (i \<in> set (lyht_live ht'))"
    if "i < length (ht_recs ht')" for i
  proof (cases "i < n")
    case True
    then show ?thesis unfolding rs slive by (simp add: slot_lt)
  next
    case False
    with that have "slots ! i = lyht_no_rec" by (intro slot_ge) (simp_all add: rs)
    with False show ?thesis unfolding rs slive by (simp add: lyht_no_rec_def)
  qed
  have "lyht_wf ht'"
    unfolding lyht_wf_iff
  proof (intro conjI allI impI ballI)
    show "0 < ht_size ht'" using sz by (simp add: ht')
    show "length (ht_buckets ht') = ht_size ht'" by (simp add: ht' lyht_rehash_def)
    show "ht_used ht' = length (lyht_live ht')" using used by (simp add: llive n) (simp add: ht')
    show "mset (lyht_live ht') + mset (ht_free ht') = mset [0..<length (ht_recs ht')]" by (rule part)
  next
    fix b i assume "b < ht_size ht'" "i \<in> set (ht_buckets ht' ! b)"
    then show "lyht_bucket (ht_size ht') (rec_hash (ht_recs ht' ! i)) = b" by (rule place)
  next
    fix i assume "i < length (ht_recs ht')"
    then show "(rec_hits (ht_recs ht' ! i) = 1) = (i \<in> set (lyht_live ht'))" by (rule hits)
  qed
  then show "lyht_wf (lyht_resize ht sz)" by (simp only: ht'_def)
  have "lyht_rec_of (lyht_get_rec slots i) = recs ! i" if "i \<in> set (lyht_live ht')" for i
  proof -
    from that slive have i: "i < n" by simp
    then have "i < length slots" by (simp add: lslots)
    with i show ?thesis by (simp add: slot_lt lyht_rec_of_def)
  qed
  then have "lyht_records ht' = map (\<lambda>i. recs ! i) (lyht_live ht')"
    unfolding lyht_records_def by (intro map_cong) (simp_all add: ht')
  then have "mset (lyht_records ht') = image_mset (\<lambda>i. recs ! i) (mset (lyht_live ht'))"
    by simp
  also have "\<dots> = mset (map (\<lambda>i. recs ! i) [0..<n])" by (simp only: mlive mset_map)
  also have "\<dots> = mset recs" by (simp only: n_def map_nth)
  finally show "mset (lyht_records (lyht_resize ht sz)) = mset (lyht_records ht)"
    by (simp only: ht'_def recs_def)
qed

lemma lyht_wf_flag:
  "lyht_wf (ht\<lparr>ht_resize := f\<rparr>) = lyht_wf ht"
  "lyht_records (ht\<lparr>ht_resize := f\<rparr>) = lyht_records ht"
  "pos_ok (ht\<lparr>ht_resize := f\<rparr>) pos = pos_ok ht pos"
  "lyht_rec_at (ht\<lparr>ht_resize := f\<rparr>) pos = lyht_rec_at ht pos"
  by (simp_all add: lyht_wf_def lyht_records_def pos_ok_def lyht_rec_at_def)

text \<open>
  Linking a record into a table that has the slot \<open>pos\<close> set aside: neither in a chain
  nor on the free list.
\<close>

lemma lyht_wf_link_rec:
  fixes ht0 :: ly_ht and h :: "32 word" and d :: ly_dict_rec and pos :: nat
  defines "b \<equiv> lyht_bucket (ht_size ht0) h"
  defines "newrec \<equiv> \<lparr>rec_hash = h, rec_val = d\<rparr>"
  defines "ht1 \<equiv> ht0\<lparr>ht_used := ht_used ht0 + 1,
                       ht_buckets := (ht_buckets ht0)[b := lyht_chain ht0 b @ [pos]],
                       ht_recs := (ht_recs ht0)[pos := \<lparr>rec_hash = h, rec_val = d, rec_hits = 1\<rparr>]\<rparr>"
  assumes size: "0 < ht_size ht0" and len: "length (ht_buckets ht0) = ht_size ht0"
    and used: "ht_used ht0 = length (lyht_live ht0)"
    and part: "mset (lyht_live ht0) + mset (ht_free ht0) + {#pos#} = mset [0..<length (ht_recs ht0)]"
    and place: "\<And>b i. b < ht_size ht0 \<Longrightarrow> i \<in> set (ht_buckets ht0 ! b) \<Longrightarrow>
                  lyht_bucket (ht_size ht0) (rec_hash (ht_recs ht0 ! i)) = b"
    and hits: "\<And>i. i < length (ht_recs ht0) \<Longrightarrow> i \<noteq> pos \<Longrightarrow>
                  (rec_hits (ht_recs ht0 ! i) = 1) = (i \<in> set (lyht_live ht0))"
  shows "lyht_wf ht1"
    and "mset (lyht_records ht1) = mset (lyht_records ht0) + {#newrec#}"
    and "pos_ok ht1 pos"
    and "lyht_rec_at ht1 pos = newrec"
proof -
  let ?recs = "ht_recs ht0"
  let ?new = "\<lparr>rec_hash = h, rec_val = d, rec_hits = 1\<rparr>"
  have b: "b < length (ht_buckets ht0)" using size len by (simp add: b_def lyht_bucket_less)
  then have ch: "lyht_chain ht0 b = ht_buckets ht0 ! b" by (simp add: lyht_chain_def)
  have "mset (lyht_live ht0 @ ht_free ht0 @ [pos]) = mset [0..<length ?recs]"
    using part by (simp add: ac_simps)
  from mset_eq_imp_distinct_iff [OF this] mset_eq_setD [OF this]
  have dist: "distinct (lyht_live ht0 @ ht_free ht0 @ [pos])"
    and st: "set (lyht_live ht0 @ ht_free ht0 @ [pos]) = {..<length ?recs}"
    by (simp_all only: distinct_upt set_upt atLeast0LessThan)
  from dist have notin: "pos \<notin> set (lyht_live ht0)" by simp
  from st have lt: "pos < length ?recs" by auto
  have live_lt: "i < length ?recs" if "i \<in> set (lyht_live ht0)" for i
    using st that by auto
  have "mset (concat ((ht_buckets ht0)[b := ht_buckets ht0 ! b @ [pos]])) + mset (ht_buckets ht0 ! b)
          = mset (concat (ht_buckets ht0)) + mset (ht_buckets ht0 ! b @ [pos])"
    using b by (rule mset_concat_list_update)
  then have mlive: "mset (lyht_live ht1) = mset (lyht_live ht0) + {#pos#}"
    by (simp add: ht1_def ch lyht_live_def)
  from arg_cong [OF mlive, of set_mset]
  have slive: "set (lyht_live ht1) = insert pos (set (lyht_live ht0))"
    by simp
  from arg_cong [OF mlive, of size] have llive: "length (lyht_live ht1) = length (lyht_live ht0) + 1"
    by simp
  have recs1: "ht_recs ht1 = ?recs[pos := ?new]" by (simp add: ht1_def)
  have nth_pos: "ht_recs ht1 ! pos = ?new" using lt by (simp add: recs1)
  have nth_other: "ht_recs ht1 ! i = ?recs ! i" if "i \<noteq> pos" for i
    using that by (simp add: recs1)
  show ok: "pos_ok ht1 pos" by (simp add: pos_ok_def slive)
  show at: "lyht_rec_at ht1 pos = newrec"
    using lt by (simp add: lyht_rec_at_def recs1 lyht_rec_of_def newrec_def)
  have "lyht_rec_of (lyht_get_rec (ht_recs ht1) i) = lyht_rec_of (lyht_get_rec ?recs i)"
    if "i \<in> set (lyht_live ht0)" for i
  proof -
    from that notin have "i \<noteq> pos" by auto
    then show ?thesis by (simp add: recs1 lyht_get_rec_def)
  qed
  then have "image_mset (\<lambda>i. lyht_rec_of (lyht_get_rec (ht_recs ht1) i)) (mset (lyht_live ht0))
           = image_mset (\<lambda>i. lyht_rec_of (lyht_get_rec ?recs i)) (mset (lyht_live ht0))"
    by (intro image_mset_cong) simp
  moreover have "lyht_rec_of (lyht_get_rec (ht_recs ht1) pos) = newrec"
    using at by (simp add: lyht_rec_at_def)
  ultimately show "mset (lyht_records ht1) = mset (lyht_records ht0) + {#newrec#}"
    by (simp add: lyht_records_def mlive)
  have place1: "lyht_bucket (ht_size ht1) (rec_hash (ht_recs ht1 ! i)) = b'"
    if "b' < ht_size ht1" "i \<in> set (ht_buckets ht1 ! b')" for b' i
  proof (cases "i = pos")
    case True
    have "i \<in> set (lyht_live ht1)" using that len by (auto simp: in_live_iff ht1_def)
    have "b' = b"
    proof (rule ccontr)
      assume "b' \<noteq> b"
      with that have "pos \<in> set (ht_buckets ht0 ! b')" by (simp add: ht1_def True)
      moreover from that len have "b' < length (ht_buckets ht0)" by (simp add: ht1_def)
      ultimately have "pos \<in> set (lyht_live ht0)" by (auto simp: in_live_iff)
      with notin show False by simp
    qed
    then show ?thesis by (simp add: True nth_pos) (simp add: ht1_def b_def)
  next
    case False
    from that len have b': "b' < ht_size ht0" by (simp add: ht1_def)
    have "i \<in> set (ht_buckets ht0 ! b')"
    proof (cases "b' = b")
      case True
      with that b False show ?thesis by (simp add: ht1_def ch)
    next
      case False
      with that show ?thesis by (simp add: ht1_def)
    qed
    from place [OF b' this] False show ?thesis by (simp add: nth_other) (simp add: ht1_def)
  qed
  have hits1: "(rec_hits (ht_recs ht1 ! i) = 1) = (i \<in> set (lyht_live ht1))"
    if "i < length (ht_recs ht1)" for i
  proof (cases "i = pos")
    case True
    then show ?thesis by (simp add: nth_pos slive)
  next
    case False
    from that have "i < length ?recs" by (simp add: recs1)
    from hits [OF this False] False show ?thesis by (simp add: nth_other slive)
  qed
  show "lyht_wf ht1"
    unfolding lyht_wf_iff
  proof (intro conjI allI impI ballI)
    show "0 < ht_size ht1" using size by (simp add: ht1_def)
    show "length (ht_buckets ht1) = ht_size ht1" using len by (simp add: ht1_def)
    show "ht_used ht1 = length (lyht_live ht1)" using used by (simp add: llive) (simp add: ht1_def)
    have "ht_free ht1 = ht_free ht0" "length (ht_recs ht1) = length ?recs"
      by (simp_all add: ht1_def)
    with part show "mset (lyht_live ht1) + mset (ht_free ht1) = mset [0..<length (ht_recs ht1)]"
      by (simp add: mlive ac_simps)
  next
    fix b' i assume "b' < ht_size ht1" "i \<in> set (ht_buckets ht1 ! b')"
    then show "lyht_bucket (ht_size ht1) (rec_hash (ht_recs ht1 ! i)) = b'" by (rule place1)
  next
    fix i assume "i < length (ht_recs ht1)"
    then show "(rec_hits (ht_recs ht1 ! i) = 1) = (i \<in> set (lyht_live ht1))" by (rule hits1)
  qed
qed

text \<open>The slot that \<open>lyht_new_rec\<close> hands out is such a slot.\<close>

lemma lyht_new_rec_props:
  assumes wf: "lyht_wf ht" and new: "lyht_new_rec ht rec_ok = Some (pos, ht0)"
  shows "ht_size ht0 = ht_size ht" "ht_buckets ht0 = ht_buckets ht" "ht_used ht0 = ht_used ht"
    and "ht_resize ht0 = ht_resize ht"
    and "lyht_records ht0 = lyht_records ht"
    and "mset (lyht_live ht0) + mset (ht_free ht0) + {#pos#} = mset [0..<length (ht_recs ht0)]"
    and "\<And>b i. b < ht_size ht0 \<Longrightarrow> i \<in> set (ht_buckets ht0 ! b) \<Longrightarrow>
                  lyht_bucket (ht_size ht0) (rec_hash (ht_recs ht0 ! i)) = b"
    and "\<And>i. i < length (ht_recs ht0) \<Longrightarrow> i \<noteq> pos \<Longrightarrow>
                  (rec_hits (ht_recs ht0 ! i) = 1) = (i \<in> set (lyht_live ht0))"
proof -
  from wf have part: "mset (lyht_live ht) + mset (ht_free ht) = mset [0..<length (ht_recs ht)]"
    and place: "\<And>b i. b < ht_size ht \<Longrightarrow> i \<in> set (ht_buckets ht ! b) \<Longrightarrow>
                  lyht_bucket (ht_size ht) (rec_hash (ht_recs ht ! i)) = b"
    and hits: "\<And>i. i < length (ht_recs ht) \<Longrightarrow>
                  (rec_hits (ht_recs ht ! i) = 1) = (i \<in> set (lyht_live ht))"
    and len: "length (ht_buckets ht) = ht_size ht"
    by (simp_all add: lyht_wf_iff)
  consider (reuse) fr where "ht_free ht = pos # fr" "ht0 = ht\<lparr>ht_free := fr\<rparr>"
    | (grow) "ht_free ht = []" "pos = length (ht_recs ht)"
        "ht0 = ht\<lparr>ht_recs := ht_recs ht @ [lyht_no_rec]\<rparr>"
    using new by (auto simp: lyht_new_rec_def split: list.splits if_splits)
  then have all: "ht_size ht0 = ht_size ht \<and> ht_buckets ht0 = ht_buckets ht \<and> ht_used ht0 = ht_used ht
      \<and> ht_resize ht0 = ht_resize ht
      \<and> lyht_live ht0 = lyht_live ht
      \<and> mset (lyht_live ht0) + mset (ht_free ht0) + {#pos#} = mset [0..<length (ht_recs ht0)]
      \<and> (\<forall>i \<in> set (lyht_live ht). ht_recs ht0 ! i = ht_recs ht ! i \<and> i < length (ht_recs ht))
      \<and> (\<forall>i < length (ht_recs ht0). i \<noteq> pos \<longrightarrow>
            i < length (ht_recs ht) \<and> ht_recs ht0 ! i = ht_recs ht ! i)"
  proof cases
    case reuse
    with part show ?thesis
      using live_less [OF wf] by (simp add: ac_simps)
  next
    case grow
    with part have "mset (lyht_live ht) = mset [0..<length (ht_recs ht)]" by simp
    with grow show ?thesis
      using live_less [OF wf] by (auto simp: nth_append lyht_live_def)
  qed
  then show "ht_size ht0 = ht_size ht" "ht_buckets ht0 = ht_buckets ht" "ht_used ht0 = ht_used ht"
    "ht_resize ht0 = ht_resize ht"
    "mset (lyht_live ht0) + mset (ht_free ht0) + {#pos#} = mset [0..<length (ht_recs ht0)]"
    by blast+
  from all have live: "lyht_live ht0 = lyht_live ht"
    and same: "\<And>i. i \<in> set (lyht_live ht) \<Longrightarrow> ht_recs ht0 ! i = ht_recs ht ! i \<and> i < length (ht_recs ht)"
    and other: "\<And>i. i < length (ht_recs ht0) \<Longrightarrow> i \<noteq> pos \<Longrightarrow>
                  i < length (ht_recs ht) \<and> ht_recs ht0 ! i = ht_recs ht ! i"
    and sz: "ht_size ht0 = ht_size ht" and bk: "ht_buckets ht0 = ht_buckets ht"
    by blast+
  have le: "length (ht_recs ht) \<le> length (ht_recs ht0)"
    using new by (auto simp: lyht_new_rec_def split: list.splits if_splits)
  have "lyht_rec_of (lyht_get_rec (ht_recs ht0) i) = lyht_rec_of (lyht_get_rec (ht_recs ht) i)"
    if "i \<in> set (lyht_live ht)" for i
    using same [OF that] le by (simp add: lyht_get_rec_def)
  then show "lyht_records ht0 = lyht_records ht"
    unfolding lyht_records_def live by (intro map_cong) simp_all
  show "lyht_bucket (ht_size ht0) (rec_hash (ht_recs ht0 ! i)) = b"
    if "b < ht_size ht0" "i \<in> set (ht_buckets ht0 ! b)" for b i
  proof -
    from that have b: "b < ht_size ht" and i: "i \<in> set (ht_buckets ht ! b)" by (simp_all add: sz bk)
    with len have "i \<in> set (lyht_live ht)" by (auto simp: in_live_iff)
    from same [OF this] place [OF b i] show ?thesis by (simp add: sz)
  qed
  show "(rec_hits (ht_recs ht0 ! i) = 1) = (i \<in> set (lyht_live ht0))"
    if "i < length (ht_recs ht0)" "i \<noteq> pos" for i
    using other [OF that] hits [of i] by (simp add: live)
qed

lemma lyht_new_rec_Some:
  "rec_ok \<or> ht_free ht \<noteq> [] \<Longrightarrow> \<exists>pos ht0. lyht_new_rec ht rec_ok = Some (pos, ht0)"
  by (auto simp: lyht_new_rec_def split: list.splits)

lemma lyht_new_rec_None:
  "\<not> rec_ok \<Longrightarrow> ht_free ht = [] \<Longrightarrow> lyht_new_rec ht rec_ok = None"
  by (simp add: lyht_new_rec_def)


lemma lyht_insert_new:
  fixes ht :: ly_ht and h :: "32 word" and p :: addr and k :: "32 word" and m :: memory
  assumes wf: "lyht_wf ht" and absent: "\<not> dict_has m ht (c_str (mem_read m p))"
    and slot: "rec_ok \<or> ht_free ht \<noteq> []"
  defines "newrec \<equiv> \<lparr>rec_hash = h, rec_val = \<lparr>dr_value = Some p, dr_refcount = k\<rparr>\<rparr>"
  shows "\<exists>pos ht'.
     lyht_insert_with_resize_cb lydict_val_eq m ht \<lparr>dr_value = Some p, dr_refcount = k\<rparr> h
        lydict_resize_val_eq rec_ok resize_ok = (Inserted pos, ht')
     \<and> lyht_wf ht' \<and> pos_ok ht' pos \<and> lyht_rec_at ht' pos = newrec
     \<and> mset (lyht_records ht') = mset (lyht_records ht) + {#newrec#}"
proof -
  let ?s = "c_str (mem_read m p)"
  let ?d = "\<lparr>dr_value = Some p, dr_refcount = k\<rparr>"
  from lyht_new_rec_Some [OF slot] obtain pos1 ht0
    where new: "lyht_new_rec ht rec_ok = Some (pos1, ht0)" by blast
  note props = lyht_new_rec_props [OF wf new]
  define b where "b = lyht_bucket (ht_size ht0) h"
  define ht1 where "ht1 = ht0\<lparr>ht_used := ht_used ht0 + 1,
                       ht_buckets := (ht_buckets ht0)[b := lyht_chain ht0 b @ [pos1]],
                       ht_recs := (ht_recs ht0)[pos1 := \<lparr>rec_hash = h, rec_val = ?d, rec_hits = 1\<rparr>]\<rparr>"
  define r where "r = ht_used ht1 * LYHT_HUNDRED_PERCENTAGE div ht_size ht1"
  define ht2 where "ht2 = (if ht_resize ht1 = 1 \<and> LYHT_FIRST_SHRINK_PERCENTAGE \<le> r
                       then ht1\<lparr>ht_resize := 2\<rparr> else ht1)"
  define ht3 where "ht3 = lyht_resize ht2 (2 * ht_size ht2)"
  have find: "lyht_find_pos lydict_val_eq 1 m ht ?d h = None"
    using absent by (simp add: lyht_find_pos_val_eq dict_find_None_absent)
  have eq: "lyht_insert_with_resize_cb lydict_val_eq m ht ?d h lydict_resize_val_eq rec_ok resize_ok =
      (if ht_resize ht2 = 2 \<and> LYHT_ENLARGE_PERCENTAGE \<le> r \<and> resize_ok
       then (Inserted (case dict_find m ht3 h ?s of Some q \<Rightarrow> q | None \<Rightarrow> pos1), ht3)
       else (Inserted pos1, ht2))"
    unfolding ht3_def ht2_def r_def ht1_def b_def
    by (simp add: lyht_insert_with_resize_cb_def find new Let_def lyht_find_pos_resize_val_eq)
  from wf have size0: "0 < ht_size ht0" and len0: "length (ht_buckets ht0) = ht_size ht0"
    and used0: "ht_used ht0 = length (lyht_live ht0)"
    by (simp_all add: lyht_wf_iff props(1-3) lyht_live_def)
  from lyht_wf_link_rec [OF size0 len0 used0 props(6) props(7) props(8), of h ?d]
  have wf1: "lyht_wf ht1"
    and m1: "mset (lyht_records ht1) = mset (lyht_records ht) + {#newrec#}"
    and ok1: "pos_ok ht1 pos1" and at1: "lyht_rec_at ht1 pos1 = newrec"
    by (simp_all add: ht1_def b_def newrec_def props(5))
  have wf2: "lyht_wf ht2"
    and m2: "mset (lyht_records ht2) = mset (lyht_records ht) + {#newrec#}"
    and ok2: "pos_ok ht2 pos1" and at2: "lyht_rec_at ht2 pos1 = newrec"
    using wf1 m1 ok1 at1 by (simp_all add: ht2_def lyht_wf_flag)
  show ?thesis
  proof (cases "ht_resize ht2 = 2 \<and> LYHT_ENLARGE_PERCENTAGE \<le> r \<and> resize_ok")
    case False
    with eq wf2 m2 ok2 at2 show ?thesis by simp
  next
    case True
    from wf2 have u2: "ht_used ht2 = length (lyht_live ht2)" and s2: "0 < 2 * ht_size ht2"
      by (simp_all add: lyht_wf_iff)
    from lyht_wf_resize [OF u2 s2]
    have wf3: "lyht_wf ht3" and m3: "mset (lyht_records ht3) = mset (lyht_records ht) + {#newrec#}"
      by (simp_all add: ht3_def m2)
    have "newrec \<in># mset (lyht_records ht3)" unfolding m3 by simp
    then have in3: "newrec \<in> set (lyht_records ht3)" by simp
    have str: "rec_string m newrec = Some ?s"
      by (simp add: rec_string_def newrec_def)
    have uniq: "r' = newrec" if "r' \<in> set (lyht_records ht3)" "rec_string m r' = Some ?s" for r'
    proof -
      from that(1) have "r' \<in># mset (lyht_records ht3)" by simp
      then have "r' \<in># mset (lyht_records ht) + {#newrec#}" unfolding m3 .
      then have "r' \<in> set (lyht_records ht) \<or> r' = newrec" by auto
      with that(2) absent show ?thesis by (auto simp: dict_has_def)
    qed
    from dict_find_unique [OF wf3 in3 str uniq]
    obtain pos where "dict_find m ht3 (rec_hash newrec) ?s = Some pos" "pos_ok ht3 pos"
      "lyht_rec_at ht3 pos = newrec" by blast
    moreover have "rec_hash newrec = h" by (simp add: newrec_def)
    ultimately show ?thesis using eq True wf3 m3 by simp
  qed
qed

lemma lyht_insert_found:
  assumes "dict_find m ht h (c_str (mem_read m p)) = Some pos"
  shows "lyht_insert_with_resize_cb lydict_val_eq m ht \<lparr>dr_value = Some p, dr_refcount = k\<rparr> h
           resize_cb rec_ok resize_ok = (AlreadyExists pos, ht)"
  using assms by (simp add: lyht_insert_with_resize_cb_def lyht_find_pos_val_eq)

lemma lyht_insert_no_slot:
  assumes "dict_find m ht h (c_str (mem_read m p)) = None" and "\<not> rec_ok" and "ht_free ht = []"
  shows "lyht_insert_with_resize_cb lydict_val_eq m ht \<lparr>dr_value = Some p, dr_refcount = k\<rparr> h
           resize_cb rec_ok resize_ok = (InsertError LY_EMEM, ht)"
  using assms by (simp add: lyht_insert_with_resize_cb_def lyht_find_pos_val_eq lyht_new_rec_None)

lemma lyht_remove_found:
  fixes ht :: ly_ht
  assumes wf: "lyht_wf ht" and found: "dict_find m ht h (c_str (mem_read m p)) = Some pos"
  shows "\<exists>ht'. lyht_remove_with_resize_cb lydict_val_eq m ht \<lparr>dr_value = Some p, dr_refcount = k\<rparr> h
                 resize_cb resize_ok = (LY_SUCCESS, ht')
          \<and> lyht_wf ht' \<and> mset (lyht_records ht') + {#lyht_rec_at ht pos#} = mset (lyht_records ht)"
proof -
  let ?recs = "ht_recs ht"
  define b where "b = lyht_bucket (ht_size ht) h"
  from wf have size: "0 < ht_size ht" and len: "length (ht_buckets ht) = ht_size ht"
    and used: "ht_used ht = length (lyht_live ht)"
    and part: "mset (lyht_live ht) + mset (ht_free ht) = mset [0..<length ?recs]"
    and place: "\<And>b i. b < ht_size ht \<Longrightarrow> i \<in> set (ht_buckets ht ! b) \<Longrightarrow>
                  lyht_bucket (ht_size ht) (rec_hash (?recs ! i)) = b"
    and hits: "\<And>i. i < length ?recs \<Longrightarrow> (rec_hits (?recs ! i) = 1) = (i \<in> set (lyht_live ht))"
    by (simp_all add: lyht_wf_iff)
  have b: "b < length (ht_buckets ht)" using size len by (simp add: b_def lyht_bucket_less)
  then have ch: "lyht_chain ht b = ht_buckets ht ! b" by (simp add: lyht_chain_def)
  from dict_find_Some [OF found] have ok: "pos_ok ht pos"
    and inch: "pos \<in> set (ht_buckets ht ! b)"
    by (simp_all add: b_def [symmetric] ch)
  from ok have live: "pos \<in> set (lyht_live ht)" by (simp add: pos_ok_def)
  from live_less [OF wf live] have lt: "pos < length ?recs" .
  let ?ch' = "remove1 pos (ht_buckets ht ! b)"
  let ?s0 = "(?recs ! pos)\<lparr>rec_hits := 0\<rparr>"
  define ht1 where "ht1 = ht\<lparr>ht_used := ht_used ht - 1, ht_free := pos # ht_free ht,
      ht_buckets := (ht_buckets ht)[b := ?ch'], ht_recs := ?recs[pos := ?s0]\<rparr>"
  define r where "r = ht_used ht1 * LYHT_HUNDRED_PERCENTAGE div ht_size ht1"
  have eq: "lyht_remove_with_resize_cb lydict_val_eq m ht \<lparr>dr_value = Some p, dr_refcount = k\<rparr> h
                 resize_cb resize_ok =
      (if ht_resize ht1 = 2 \<and> r < LYHT_SHRINK_PERCENTAGE \<and> resize_ok
       then (LY_SUCCESS, lyht_resize ht1 (max LYHT_MIN_SIZE (ht_size ht1 div 2)))
       else (LY_SUCCESS, ht1))"
    unfolding r_def ht1_def b_def using lt
    by (simp add: lyht_remove_with_resize_cb_def lyht_find_pos_val_eq found Let_def
        ch [unfolded b_def])
  have mch: "mset ?ch' + {#pos#} = mset (ht_buckets ht ! b)"
    using inch by simp
  have "mset (concat ((ht_buckets ht)[b := ?ch'])) + mset (ht_buckets ht ! b)
          = mset (concat (ht_buckets ht)) + mset ?ch'"
    using b by (rule mset_concat_list_update)
  then have "mset (concat ((ht_buckets ht)[b := ?ch'])) + {#pos#} + mset (ht_buckets ht ! b)
               = mset (concat (ht_buckets ht)) + mset (ht_buckets ht ! b)"
    unfolding mch [symmetric] by (simp add: ac_simps)
  then have mlive: "mset (lyht_live ht1) + {#pos#} = mset (lyht_live ht)"
    by (simp add: ht1_def lyht_live_def)
  from arg_cong [OF mlive, of set_mset]
  have slive: "insert pos (set (lyht_live ht1)) = set (lyht_live ht)" by simp
  from arg_cong [OF mlive, of size]
  have llive: "length (lyht_live ht1) + 1 = length (lyht_live ht)" by simp
  have "distinct (pos # lyht_live ht1)"
  proof -
    have "mset (pos # lyht_live ht1) = mset (lyht_live ht)" using mlive by simp
    from mset_eq_imp_distinct_iff [OF this] live_distinct [OF wf] show ?thesis by blast
  qed
  then have notin: "pos \<notin> set (lyht_live ht1)" by simp
  have recs1: "ht_recs ht1 = ?recs[pos := ?s0]" by (simp add: ht1_def)
  have nth_pos: "ht_recs ht1 ! pos = ?s0" using lt by (simp add: recs1)
  have nth_other: "ht_recs ht1 ! i = ?recs ! i" if "i \<noteq> pos" for i
    using that by (simp add: recs1)
  have "lyht_rec_of (lyht_get_rec (ht_recs ht1) i) = lyht_rec_of (lyht_get_rec ?recs i)"
    if "i \<in> set (lyht_live ht1)" for i
  proof -
    from that notin have "i \<noteq> pos" by auto
    then show ?thesis by (simp add: recs1 lyht_get_rec_def)
  qed
  then have "lyht_records ht1 = map (\<lambda>i. lyht_rec_of (lyht_get_rec ?recs i)) (lyht_live ht1)"
    unfolding lyht_records_def by (intro map_cong) simp_all
  then have "mset (lyht_records ht1) + {#lyht_rec_at ht pos#}
           = image_mset (\<lambda>i. lyht_rec_of (lyht_get_rec ?recs i)) (mset (lyht_live ht1) + {#pos#})"
    by (simp add: lyht_rec_at_def)
  then have m1: "mset (lyht_records ht1) + {#lyht_rec_at ht pos#} = mset (lyht_records ht)"
    unfolding mlive by (simp add: lyht_records_def)
  have place1: "lyht_bucket (ht_size ht1) (rec_hash (ht_recs ht1 ! i)) = b'"
    if "b' < ht_size ht1" "i \<in> set (ht_buckets ht1 ! b')" for b' i
  proof -
    from that len have b': "b' < ht_size ht" "b' < length (ht_buckets ht1)"
      by (simp_all add: ht1_def)
    with that(2) have "i \<in> set (lyht_live ht1)" by (auto simp: in_live_iff)
    with notin have ne: "i \<noteq> pos" by auto
    have "i \<in> set (ht_buckets ht ! b')"
    proof (cases "b' = b")
      case True
      with that b have "i \<in> set ?ch'" by (simp add: ht1_def)
      then show ?thesis using True set_remove1_subset [of pos "ht_buckets ht ! b"] by auto
    next
      case False
      with that show ?thesis by (simp add: ht1_def)
    qed
    from place [OF b'(1) this] ne show ?thesis by (simp add: nth_other) (simp add: ht1_def)
  qed
  have hits1: "(rec_hits (ht_recs ht1 ! i) = 1) = (i \<in> set (lyht_live ht1))"
    if "i < length (ht_recs ht1)" for i
  proof (cases "i = pos")
    case True
    then show ?thesis using notin by (simp add: nth_pos)
  next
    case False
    from that have "i < length ?recs" by (simp add: recs1)
    from hits [OF this] False slive show ?thesis by (auto simp: nth_other)
  qed
  have wf1: "lyht_wf ht1"
    unfolding lyht_wf_iff
  proof (intro conjI allI impI ballI)
    show "0 < ht_size ht1" using size by (simp add: ht1_def)
    show "length (ht_buckets ht1) = ht_size ht1" using len by (simp add: ht1_def)
    have "ht_used ht1 = ht_used ht - 1" by (simp add: ht1_def)
    with used llive show "ht_used ht1 = length (lyht_live ht1)" by simp
    have fr: "ht_free ht1 = pos # ht_free ht" and lr: "length (ht_recs ht1) = length ?recs"
      by (simp_all add: ht1_def)
    have "mset (lyht_live ht1) + mset (pos # ht_free ht)
            = (mset (lyht_live ht1) + {#pos#}) + mset (ht_free ht)"
      by simp
    also have "\<dots> = mset [0..<length ?recs]" unfolding mlive by (rule part)
    finally show "mset (lyht_live ht1) + mset (ht_free ht1) = mset [0..<length (ht_recs ht1)]"
      unfolding fr lr .
  next
    fix b' i assume "b' < ht_size ht1" "i \<in> set (ht_buckets ht1 ! b')"
    then show "lyht_bucket (ht_size ht1) (rec_hash (ht_recs ht1 ! i)) = b'" by (rule place1)
  next
    fix i assume "i < length (ht_recs ht1)"
    then show "(rec_hits (ht_recs ht1 ! i) = 1) = (i \<in> set (lyht_live ht1))" by (rule hits1)
  qed
  show ?thesis
  proof (cases "ht_resize ht1 = 2 \<and> r < LYHT_SHRINK_PERCENTAGE \<and> resize_ok")
    case False
    with eq wf1 m1 show ?thesis by simp
  next
    case True
    from wf1 have u1: "ht_used ht1 = length (lyht_live ht1)" by (simp add: lyht_wf_iff)
    have s1: "0 < max LYHT_MIN_SIZE (ht_size ht1 div 2)" by (simp add: LYHT_MIN_SIZE_def)
    from lyht_wf_resize [OF u1 s1] eq True m1 show ?thesis by simp
  qed
qed

section \<open>The strings of the dictionary when blocks come and go\<close>

lemma take_strlen: "take (strlen bs) bs = c_str bs"
  by (simp add: strlen_def c_str_def takeWhile_eq_take [symmetric])

lemma strlen_le: "strlen bs \<le> length bs"
  by (simp add: strlen_def c_str_def length_takeWhile_le)

lemma mem_read_upd_same [simp]: "mem_read (m(a \<mapsto> bs)) a = bs"
  by (simp add: mem_read_def)

lemma mem_read_Some: "m a = Some bs \<Longrightarrow> mem_read m a = bs"
  by (simp add: mem_read_def)

lemma rec_string_frame:
  "(\<And>q. dr_value (rec_val r) = Some q \<Longrightarrow> m' q = m q) \<Longrightarrow> rec_string m' r = rec_string m r"
  by (cases "dr_value (rec_val r)") (simp_all add: rec_string_def mem_read_def)

lemma dict_ok_not_fresh:
  "dict_ok m ht \<Longrightarrow> m a = None \<Longrightarrow> r \<in> set (lyht_records ht) \<Longrightarrow> dr_value (rec_val r) \<noteq> Some a"
  by (auto simp: dict_ok_def)

lemma rec_string_upd_fresh:
  "dict_ok m ht \<Longrightarrow> m a = None \<Longrightarrow> r \<in> set (lyht_records ht) \<Longrightarrow>
     rec_string (m(a \<mapsto> x)) r = rec_string m r"
  by (rule rec_string_frame) (auto dest: dict_ok_not_fresh)

lemma dict_has_upd_fresh:
  "dict_ok m ht \<Longrightarrow> m a = None \<Longrightarrow> dict_has (m(a \<mapsto> x)) ht s = dict_has m ht s"
  by (auto simp: dict_has_def rec_string_upd_fresh)

lemma dict_find_upd_fresh:
  assumes "dict_ok m ht" and "m a = None"
  shows "dict_find (m(a \<mapsto> x)) ht h s = dict_find m ht h s"
proof -
  have "rec_string (m(a \<mapsto> x)) (lyht_rec_at ht i) = rec_string m (lyht_rec_at ht i)"
    if "i \<in> set (lyht_chain ht b)" for i b
  proof -
    from that lyht_chain_subset have "pos_ok ht i" by (auto simp: pos_ok_def)
    from rec_string_upd_fresh [OF assms pos_ok_in_records [OF this]] show ?thesis .
  qed
  then show ?thesis
    unfolding dict_find_def by (intro chain_find_cong) simp
qed

lemma hash_tab_set_hash_tab [simp]: "hash_tab (dict (set_hash_tab c ht)) = ht"
  by (simp add: set_hash_tab_def)

lemma dict_insert_found:
  assumes "dict_find (w_mem w) (hash_tab (dict c)) (hashf (take len (mem_read (w_mem w) v)))
             (c_str (mem_read (w_mem w) v)) = Some pos"
  shows "dict_insert hashf w c v len str_p rec_ok resize_ok =
     (LY_SUCCESS, free_ptr (Some v) (log_event LogDbg w),
      set_hash_tab c (lyht_update_at (hash_tab (dict c)) pos (\<lambda>d. d\<lparr>dr_refcount := dr_refcount d + 1\<rparr>)),
      write_str_p str_p (dr_value (rec_val (lyht_rec_at
         (lyht_update_at (hash_tab (dict c)) pos (\<lambda>d. d\<lparr>dr_refcount := dr_refcount d + 1\<rparr>)) pos))))"
  using assms by (simp add: dict_insert_def Let_def lyht_insert_found)

lemma dict_insert_new:
  fixes c :: ly_ctx
  assumes wf: "lyht_wf (hash_tab (dict c))"
    and absent: "\<not> dict_has (w_mem w) (hash_tab (dict c)) (c_str (mem_read (w_mem w) v))"
    and slot: "rec_ok \<or> ht_free (hash_tab (dict c)) \<noteq> []"
  shows "\<exists>ht'. dict_insert hashf w c v len str_p rec_ok resize_ok =
            (LY_SUCCESS, log_event LogDbg w, set_hash_tab c ht', write_str_p str_p (Some v))
          \<and> lyht_wf ht'
          \<and> mset (lyht_records ht') = mset (lyht_records (hash_tab (dict c)))
              + {#\<lparr>rec_hash = hashf (take len (mem_read (w_mem w) v)),
                    rec_val = \<lparr>dr_value = Some v, dr_refcount = 1\<rparr>\<rparr>#}"
proof -
  from lyht_insert_new [OF wf absent slot, where h = "hashf (take len (mem_read (w_mem w) v))"
      and k = 1 and resize_ok = resize_ok]
  obtain pos ht' where
    "lyht_insert_with_resize_cb lydict_val_eq (w_mem w) (hash_tab (dict c))
        \<lparr>dr_value = Some v, dr_refcount = 1\<rparr> (hashf (take len (mem_read (w_mem w) v)))
        lydict_resize_val_eq rec_ok resize_ok = (Inserted pos, ht')"
    "lyht_wf ht'" "lyht_rec_at ht' pos = \<lparr>rec_hash = hashf (take len (mem_read (w_mem w) v)),
                    rec_val = \<lparr>dr_value = Some v, dr_refcount = 1\<rparr>\<rparr>"
    "mset (lyht_records ht') = mset (lyht_records (hash_tab (dict c)))
              + {#\<lparr>rec_hash = hashf (take len (mem_read (w_mem w) v)),
                    rec_val = \<lparr>dr_value = Some v, dr_refcount = 1\<rparr>\<rparr>#}"
    by blast
  then show ?thesis by (intro exI [of _ ht']) (simp add: dict_insert_def Let_def)
qed

lemma dict_insert_no_slot:
  assumes "\<not> dict_has (w_mem w) (hash_tab (dict c)) (c_str (mem_read (w_mem w) v))"
    and "\<not> rec_ok" and "ht_free (hash_tab (dict c)) = []"
  shows "dict_insert hashf w c v len str_p rec_ok resize_ok =
            (LY_EMEM, free_ptr (Some v) (log_event LogDbg w), set_hash_tab c (hash_tab (dict c)), str_p)"
  using assms by (simp add: dict_insert_def Let_def lyht_insert_no_slot dict_find_None_absent)

section \<open>Remove\<close>

lemma world_eq_iff:
  "(w :: world) = w' \<longleftrightarrow> w_mem w = w_mem w' \<and> w_trace w = w_trace w'"
  by (cases w, cases w') auto

lemma w_mem_free_ptr:
  "w_mem (free_ptr p w) = (case p of None \<Rightarrow> w_mem w | Some a \<Rightarrow> (w_mem w)(a := None))"
  by (simp split: option.split)

text \<open>
  C5. A remove call for a live, terminated string whose content no record of the table
  holds returns \<open>LY_ENOTFOUND\<close>, which is not \<open>LY_SUCCESS\<close>. The error is logged while
  the lock is held. The context comes back as it was (the same table: the same records,
  reference counts and \<open>used\<close>), and so does the memory.
\<close>

theorem lydict_remove_absent_not_found:
  assumes live: "w_mem w v = Some bs" and nul: "NUL \<in> set bs"
    and absent: "\<not> dict_has (w_mem w) (hash_tab (dict c)) (c_str bs)"
  shows "lydict_remove hashf w (Some c) (Some v) resize_ok =
     (LY_ENOTFOUND,
      w\<lparr>w_trace := w_trace w @ [LogDbg, MutexLock, LogErr LY_ENOTFOUND (c_str bs), MutexUnlock]\<rparr>,
      Some c)"
  using live absent
  by (simp add: lydict_remove_def Let_def lyht_find_def lyht_find_pos_val_eq
      dict_find_None_absent world_eq_iff mem_read_Some)

lemma lydict_remove_found_step:
  fixes c :: ly_ctx
  defines "ht \<equiv> hash_tab (dict c)"
  assumes wf: "lyht_wf ht"
    and found: "dict_find (w_mem w) ht (hashf (c_str (mem_read (w_mem w) v)))
                  (c_str (mem_read (w_mem w) v)) = Some pos"
  defines "r \<equiv> lyht_rec_at ht pos"
  defines "ht1 \<equiv> lyht_update_at ht pos (\<lambda>d. d\<lparr>dr_refcount := dr_refcount d - 1\<rparr>)"
  shows "dr_refcount (rec_val r) - 1 \<noteq> 0 \<Longrightarrow>
           lydict_remove hashf w (Some c) (Some v) resize_ok =
             (LY_SUCCESS, w\<lparr>w_trace := w_trace w @ [LogDbg, MutexLock, MutexUnlock]\<rparr>,
              Some (set_hash_tab c ht1))"
    and "dr_refcount (rec_val r) - 1 = 0 \<Longrightarrow>
           \<exists>ht'. lydict_remove hashf w (Some c) (Some v) resize_ok =
             (LY_SUCCESS,
              free_ptr (dr_value (rec_val r))
                (w\<lparr>w_trace := w_trace w @ [LogDbg, MutexLock, MutexUnlock]\<rparr>),
              Some (set_hash_tab c ht'))
            \<and> lyht_wf ht' \<and> mset (lyht_records ht') + {#r#} = mset (lyht_records ht)"
    and "lyht_rec_at ht1 pos = r\<lparr>rec_val := (rec_val r)\<lparr>dr_refcount := dr_refcount (rec_val r) - 1\<rparr>\<rparr>"
    and "lyht_wf ht1"
    and "mset (lyht_records ht1) + {#r#}
          = mset (lyht_records ht) + {#r\<lparr>rec_val := (rec_val r)\<lparr>dr_refcount := dr_refcount (rec_val r) - 1\<rparr>\<rparr>#}"
proof -
  let ?s = "c_str (mem_read (w_mem w) v)"
  let ?h = "hashf ?s"
  let ?f = "\<lambda>d. d\<lparr>dr_refcount := dr_refcount d - 1\<rparr>"
  from dict_find_Some(1) [OF found] have ok: "pos_ok ht pos" .
  from update_at_props(1-3) [OF wf ok, of ?f]
  show at1: "lyht_rec_at ht1 pos = r\<lparr>rec_val := (rec_val r)\<lparr>dr_refcount := dr_refcount (rec_val r) - 1\<rparr>\<rparr>"
    and wf1: "lyht_wf ht1"
    and m1: "mset (lyht_records ht1) + {#r#}
          = mset (lyht_records ht) + {#r\<lparr>rec_val := (rec_val r)\<lparr>dr_refcount := dr_refcount (rec_val r) - 1\<rparr>\<rparr>#}"
    by (simp_all add: ht1_def r_def)
  have find: "lyht_find lydict_val_eq (w_mem w) ht \<lparr>dr_value = Some v, dr_refcount = 0\<rparr> ?h
                = (LY_SUCCESS, Some pos)"
    using found by (simp add: lyht_find_def lyht_find_pos_val_eq)
  have rc1: "dr_refcount (rec_val (lyht_rec_at ht1 pos)) = dr_refcount (rec_val r) - 1"
    and v1: "dr_value (rec_val (lyht_rec_at ht1 pos)) = dr_value (rec_val r)"
    by (simp_all add: at1)
  show "lydict_remove hashf w (Some c) (Some v) resize_ok =
             (LY_SUCCESS, w\<lparr>w_trace := w_trace w @ [LogDbg, MutexLock, MutexUnlock]\<rparr>,
              Some (set_hash_tab c ht1))"
    if "dr_refcount (rec_val r) - 1 \<noteq> 0"
    using that find rc1
    by (simp add: lydict_remove_def Let_def take_strlen ht_def [symmetric] ht1_def [symmetric]
        world_eq_iff)
  have found1: "dict_find (w_mem w) ht1 ?h ?s = Some pos"
    using dict_find_update_at [of ?f "w_mem w" ht pos ?h ?s] found by (simp add: ht1_def)
  from lyht_remove_found [OF wf1 found1, of 0 lydict_resize_val_eq resize_ok]
  obtain ht' where rm: "lyht_remove_with_resize_cb lydict_val_eq (w_mem w) ht1
        \<lparr>dr_value = Some v, dr_refcount = 0\<rparr> ?h lydict_resize_val_eq resize_ok = (LY_SUCCESS, ht')"
    and wf': "lyht_wf ht'"
    and m': "mset (lyht_records ht') + {#lyht_rec_at ht1 pos#} = mset (lyht_records ht1)"
    by blast
  from m' m1 have "mset (lyht_records ht') + {#lyht_rec_at ht1 pos#} + {#r#}
      = mset (lyht_records ht) + {#lyht_rec_at ht1 pos#}"
    by (simp add: at1)
  then have mm: "mset (lyht_records ht') + {#r#} = mset (lyht_records ht)" by simp
  show "\<exists>ht'. lydict_remove hashf w (Some c) (Some v) resize_ok =
             (LY_SUCCESS,
              free_ptr (dr_value (rec_val r))
                (w\<lparr>w_trace := w_trace w @ [LogDbg, MutexLock, MutexUnlock]\<rparr>),
              Some (set_hash_tab c ht'))
            \<and> lyht_wf ht' \<and> mset (lyht_records ht') + {#r#} = mset (lyht_records ht)"
    if "dr_refcount (rec_val r) - 1 = 0"
    using that find rc1 v1 rm wf' mm
    by (intro exI [of _ ht'])
       (simp add: lydict_remove_def Let_def take_strlen ht_def [symmetric] ht1_def [symmetric]
          world_eq_iff w_mem_free_ptr split: option.split)
qed

text \<open>
  C2. A remove call for a live, terminated string whose content the table finds, at the
  record \<open>r\<close>, takes one off the reference count of \<open>r\<close> (in \<open>uint32_t\<close>) and
  returns \<open>LY_SUCCESS\<close>. If the count is then not zero, the table is the old one with
  that count changed and nothing else: \<open>r\<close> stays at its place with its string pointer,
  and no memory is freed. If the count is then zero, \<open>r\<close> is gone from the table (its
  records are the old ones without \<open>r\<close>) and the string of \<open>r\<close> is freed.
\<close>

theorem lydict_remove_found_decrements:
  fixes c :: ly_ctx
  defines "ht \<equiv> hash_tab (dict c)"
  assumes wf: "lyht_wf ht"
    and live: "w_mem w v = Some bs" and nul: "NUL \<in> set bs"
    and found: "dict_find (w_mem w) ht (hashf (c_str bs)) (c_str bs) = Some pos"
  defines "r \<equiv> lyht_rec_at ht pos"
  defines "r' \<equiv> r\<lparr>rec_val := (rec_val r)\<lparr>dr_refcount := dr_refcount (rec_val r) - 1\<rparr>\<rparr>"
  defines "ht1 \<equiv> lyht_update_at ht pos (\<lambda>d. d\<lparr>dr_refcount := dr_refcount d - 1\<rparr>)"
  shows "(dr_refcount (rec_val r) - 1 \<noteq> 0 \<longrightarrow>
            lydict_remove hashf w (Some c) (Some v) resize_ok =
              (LY_SUCCESS, w\<lparr>w_trace := w_trace w @ [LogDbg, MutexLock, MutexUnlock]\<rparr>,
               Some (set_hash_tab c ht1))
            \<and> lyht_rec_at ht1 pos = r'
            \<and> mset (lyht_records ht1) + {#r#} = mset (lyht_records ht) + {#r'#})
       \<and> (dr_refcount (rec_val r) - 1 = 0 \<longrightarrow>
            (\<exists>ht'. lydict_remove hashf w (Some c) (Some v) resize_ok =
               (LY_SUCCESS,
                free_ptr (dr_value (rec_val r))
                  (w\<lparr>w_trace := w_trace w @ [LogDbg, MutexLock, MutexUnlock]\<rparr>),
                Some (set_hash_tab c ht'))
              \<and> lyht_wf ht' \<and> mset (lyht_records ht') + {#r#} = mset (lyht_records ht)))"
proof -
  have found': "dict_find (w_mem w) (hash_tab (dict c)) (hashf (c_str (mem_read (w_mem w) v)))
                  (c_str (mem_read (w_mem w) v)) = Some pos"
    using found live by (simp add: mem_read_Some ht_def)
  show ?thesis
    using lydict_remove_found_step(1,2) [where hashf = hashf and resize_ok = resize_ok,
        OF wf [unfolded ht_def] found']
      lydict_remove_found_step(3,5) [where hashf = hashf, OF wf [unfolded ht_def] found']
    unfolding ht_def r_def r'_def ht1_def by blast
qed


section \<open>Insert\<close>

lemma dict_ok_after_insert:
  assumes ok: "dict_ok m ht" and fresh: "m a = None" and wf': "lyht_wf ht'"
    and ms: "mset (lyht_records ht') = mset (lyht_records ht) + {#\<lparr>rec_hash = h, rec_val = \<lparr>dr_value = Some a, dr_refcount = k\<rparr>\<rparr>#}"
    and nul: "NUL \<in> set x"
  shows "dict_ok (m(a \<mapsto> x)) ht'"
proof -
  have "\<exists>q bs. dr_value (rec_val r) = Some q \<and> (m(a \<mapsto> x)) q = Some bs \<and> NUL \<in> set bs"
    if "r \<in> set (lyht_records ht')" for r
  proof -
    from that have "r \<in># mset (lyht_records ht')" by simp
    then have "r \<in> set (lyht_records ht) \<or> r = \<lparr>rec_hash = h, rec_val = \<lparr>dr_value = Some a, dr_refcount = k\<rparr>\<rparr>"
      unfolding ms by auto
    then show ?thesis
    proof
      assume "r \<in> set (lyht_records ht)"
      with ok obtain q bs where "dr_value (rec_val r) = Some q" "m q = Some bs" "NUL \<in> set bs"
        by (auto simp: dict_ok_def)
      with fresh show ?thesis by (cases "q = a") auto
    next
      assume "r = \<lparr>rec_hash = h, rec_val = \<lparr>dr_value = Some a, dr_refcount = k\<rparr>\<rparr>"
      with nul show ?thesis by simp
    qed
  qed
  with wf' show ?thesis by (simp add: dict_ok_def)
qed

lemma dict_ok_after_update:
  assumes ok: "dict_ok m ht" and pos: "pos_ok ht pos" and f: "\<And>d. dr_value (f d) = dr_value d"
  shows "dict_ok m (lyht_update_at ht pos f)"
proof -
  from ok have wf: "lyht_wf ht" by (simp add: dict_ok_def)
  let ?r = "lyht_rec_at ht pos"
  let ?r' = "?r\<lparr>rec_val := f (rec_val ?r)\<rparr>"
  from update_at_props [OF wf pos, of f]
  have wf': "lyht_wf (lyht_update_at ht pos f)"
    and ms: "mset (lyht_records (lyht_update_at ht pos f)) + {#?r#} = mset (lyht_records ht) + {#?r'#}"
    by simp_all
  have rin: "?r \<in> set (lyht_records ht)" using pos by (rule pos_ok_in_records)
  have "\<exists>q bs. dr_value (rec_val r) = Some q \<and> m q = Some bs \<and> NUL \<in> set bs"
    if "r \<in> set (lyht_records (lyht_update_at ht pos f))" for r
  proof -
    from that have "r \<in># mset (lyht_records (lyht_update_at ht pos f)) + {#?r#}" by simp
    then have "r \<in> set (lyht_records ht) \<or> r = ?r'" unfolding ms by auto
    then show ?thesis using ok rin by (auto simp: dict_ok_def f)
  qed
  with wf' show ?thesis by (simp add: dict_ok_def)
qed

lemma lydict_insert_unfold:
  assumes "w_mem w v = Some bs" and "env_malloc env = Some a"
  shows "lydict_insert hashf w (Some c) (Some v) len (Some old) env =
     (case dict_insert hashf
             (log_event MutexLock
                (w\<lparr>w_mem := (w_mem w)(a \<mapsto> take (if len = 0 then strlen bs else len) bs @ [NUL])\<rparr>))
             c a (if len = 0 then strlen bs else len) (Some old) (env_rec_ok env) (env_resize_ok env) of
        (result, w3, c', str_p') \<Rightarrow> (result, log_event MutexUnlock w3, Some c', str_p'))"
  using assms by (simp add: lydict_insert_def Let_def mem_read_Some)

lemma lydict_insert_new_step:
  fixes c :: ly_ctx and bs :: "char list" and len :: nat
  defines "ht \<equiv> hash_tab (dict c)"
  defines "len1 \<equiv> (if len = 0 then strlen bs else len)"
  defines "copy \<equiv> take len1 bs @ [NUL]"
  assumes ok: "dict_ok (w_mem w) ht"
    and src: "w_mem w v = Some bs" "len \<le> length bs"
    and fresh: "env_malloc env = Some a" "w_mem w a = None"
    and absent: "\<not> dict_has (w_mem w) ht (c_str copy)"
    and slot: "env_rec_ok env \<or> ht_free ht \<noteq> []"
  shows "\<exists>ht'. lydict_insert hashf w (Some c) (Some v) len (Some old) env =
            (LY_SUCCESS,
             w\<lparr>w_mem := (w_mem w)(a \<mapsto> copy), w_trace := w_trace w @ [MutexLock, LogDbg, MutexUnlock]\<rparr>,
             Some (set_hash_tab c ht'), Some (Some a))
         \<and> dict_ok ((w_mem w)(a \<mapsto> copy)) ht'
         \<and> mset (lyht_records ht') = mset (lyht_records ht)
             + {#\<lparr>rec_hash = hashf (take len1 bs), rec_val = \<lparr>dr_value = Some a, dr_refcount = 1\<rparr>\<rparr>#}"
proof -
  let ?m1 = "(w_mem w)(a \<mapsto> copy)"
  let ?w2 = "log_event MutexLock (w\<lparr>w_mem := ?m1\<rparr>)"
  have len1: "len1 \<le> length bs" using src(2) by (simp add: len1_def strlen_le)
  then have tk: "take len1 copy = take len1 bs" by (simp add: copy_def)
  from ok have wf: "lyht_wf (hash_tab (dict c))" by (simp add: dict_ok_def ht_def)
  have abs2: "\<not> dict_has (w_mem ?w2) (hash_tab (dict c)) (c_str (mem_read (w_mem ?w2) a))"
    using absent dict_has_upd_fresh [OF ok fresh(2)] by (simp add: ht_def)
  from dict_insert_new [OF wf abs2 slot [unfolded ht_def], of hashf len1 "Some old" "env_resize_ok env"]
  obtain ht' where di: "dict_insert hashf ?w2 c a len1 (Some old) (env_rec_ok env) (env_resize_ok env) =
            (LY_SUCCESS, log_event LogDbg ?w2, set_hash_tab c ht', write_str_p (Some old) (Some a))"
    and wf': "lyht_wf ht'"
    and ms: "mset (lyht_records ht') = mset (lyht_records ht)
              + {#\<lparr>rec_hash = hashf (take len1 bs), rec_val = \<lparr>dr_value = Some a, dr_refcount = 1\<rparr>\<rparr>#}"
    by (auto simp: tk ht_def)
  have "lydict_insert hashf w (Some c) (Some v) len (Some old) env =
            (LY_SUCCESS,
             w\<lparr>w_mem := ?m1, w_trace := w_trace w @ [MutexLock, LogDbg, MutexUnlock]\<rparr>,
             Some (set_hash_tab c ht'), Some (Some a))"
    unfolding lydict_insert_unfold [OF src(1) fresh(1)] len1_def [symmetric] copy_def [symmetric]
    using di by (simp add: write_str_p_def world_eq_iff)
  moreover have "dict_ok ?m1 ht'"
    using ok fresh(2) wf' ms by (rule dict_ok_after_insert) (simp add: copy_def)
  ultimately show ?thesis using ms by blast
qed

lemma lydict_insert_dup_step:
  fixes c :: ly_ctx and bs :: "char list" and len :: nat
  defines "ht \<equiv> hash_tab (dict c)"
  defines "len1 \<equiv> (if len = 0 then strlen bs else len)"
  defines "copy \<equiv> take len1 bs @ [NUL]"
  defines "incr \<equiv> (\<lambda>d. d\<lparr>dr_refcount := dr_refcount d + 1\<rparr>)"
  assumes ok: "dict_ok (w_mem w) ht"
    and src: "w_mem w v = Some bs" "len \<le> length bs"
    and fresh: "env_malloc env = Some a" "w_mem w a = None"
    and found: "dict_find (w_mem w) ht (hashf (take len1 bs)) (c_str copy) = Some pos"
  shows "lydict_insert hashf w (Some c) (Some v) len (Some old) env =
            (LY_SUCCESS, w\<lparr>w_trace := w_trace w @ [MutexLock, LogDbg, MutexUnlock]\<rparr>,
             Some (set_hash_tab c (lyht_update_at ht pos incr)),
             Some (dr_value (rec_val (lyht_rec_at ht pos))))"
    and "rec_string (w_mem w) (lyht_rec_at ht pos) = Some (c_str copy)"
    and "dr_value (rec_val (lyht_rec_at ht pos)) \<noteq> Some a"
    and "dict_ok (w_mem w) (lyht_update_at ht pos incr)"
    and "pos_ok ht pos"
proof -
  let ?m1 = "(w_mem w)(a \<mapsto> copy)"
  let ?w2 = "log_event MutexLock (w\<lparr>w_mem := ?m1\<rparr>)"
  have len1: "len1 \<le> length bs" using src(2) by (simp add: len1_def strlen_le)
  then have tk: "take len1 copy = take len1 bs" by (simp add: copy_def)
  from ok have wf: "lyht_wf ht" by (simp add: dict_ok_def)
  from dict_find_Some(1,2) [OF found]
  show pok: "pos_ok ht pos" and "rec_string (w_mem w) (lyht_rec_at ht pos) = Some (c_str copy)"
    by simp_all
  from pos_ok_in_records [OF pok] dict_ok_not_fresh [OF ok fresh(2)]
  show "dr_value (rec_val (lyht_rec_at ht pos)) \<noteq> Some a" by blast
  from dict_ok_after_update [OF ok pok, of incr]
  show "dict_ok (w_mem w) (lyht_update_at ht pos incr)" by (simp add: incr_def)
  from update_at_props(2) [OF wf pok, of incr]
  have val: "dr_value (rec_val (lyht_rec_at (lyht_update_at ht pos incr) pos))
               = dr_value (rec_val (lyht_rec_at ht pos))"
    by (simp add: incr_def)
  have f2: "dict_find (w_mem ?w2) (hash_tab (dict c)) (hashf (take len1 (mem_read (w_mem ?w2) a)))
             (c_str (mem_read (w_mem ?w2) a)) = Some pos"
    using found dict_find_upd_fresh [OF ok fresh(2)] by (simp add: tk ht_def)
  have mm: "?m1(a := None) = w_mem w" using fresh(2) by (auto simp: fun_eq_iff)
  show "lydict_insert hashf w (Some c) (Some v) len (Some old) env =
            (LY_SUCCESS, w\<lparr>w_trace := w_trace w @ [MutexLock, LogDbg, MutexUnlock]\<rparr>,
             Some (set_hash_tab c (lyht_update_at ht pos incr)),
             Some (dr_value (rec_val (lyht_rec_at ht pos))))"
    unfolding lydict_insert_unfold [OF src(1) fresh(1)] len1_def [symmetric] copy_def [symmetric]
    using dict_insert_found [where hashf = hashf and len = len1 and w = ?w2 and c = c and v = a
        and pos = pos and str_p = "Some old" and rec_ok = "env_rec_ok env"
        and resize_ok = "env_resize_ok env", OF f2] val mm
    by (simp add: write_str_p_def world_eq_iff ht_def [symmetric] incr_def [symmetric])
qed

lemma lydict_insert_malloc_None:
  "env_malloc env = None \<Longrightarrow>
     lydict_insert hashf w (Some c) (Some v) len (Some old) env
       = (LY_EMEM, log_event LogMem w, Some c, Some old)"
  by (simp add: lydict_insert_def Let_def)

lemma lydict_insert_no_slot_step:
  fixes c :: ly_ctx and bs :: "char list" and len :: nat
  defines "ht \<equiv> hash_tab (dict c)"
  defines "len1 \<equiv> (if len = 0 then strlen bs else len)"
  defines "copy \<equiv> take len1 bs @ [NUL]"
  assumes ok: "dict_ok (w_mem w) ht"
    and src: "w_mem w v = Some bs"
    and fresh: "env_malloc env = Some a" "w_mem w a = None"
    and absent: "\<not> dict_has (w_mem w) ht (c_str copy)"
    and slot: "\<not> env_rec_ok env" "ht_free ht = []"
  shows "fst (lydict_insert hashf w (Some c) (Some v) len (Some old) env) = LY_EMEM"
proof -
  let ?m1 = "(w_mem w)(a \<mapsto> copy)"
  let ?w2 = "log_event MutexLock (w\<lparr>w_mem := ?m1\<rparr>)"
  have abs2: "\<not> dict_has (w_mem ?w2) (hash_tab (dict c)) (c_str (mem_read (w_mem ?w2) a))"
    using absent dict_has_upd_fresh [OF ok fresh(2)] by (simp add: ht_def)
  show ?thesis
    unfolding lydict_insert_unfold [OF src fresh(1)] len1_def [symmetric] copy_def [symmetric]
    using dict_insert_no_slot [where hashf = hashf and len = len1 and w = ?w2 and c = c and v = a
        and str_p = "Some old" and resize_ok = "env_resize_ok env",
        OF abs2 slot(1) slot(2) [unfolded ht_def]]
    by simp
qed

lemma lydict_insert_zc_unfold:
  "lydict_insert_zc hashf w (Some c) (Some v) (Some old) env =
     (case dict_insert hashf (log_event MutexLock w) c v (strlen (mem_read (w_mem w) v)) (Some old)
             (env_rec_ok env) (env_resize_ok env) of
        (result, w3, c', str_p') \<Rightarrow> (result, log_event MutexUnlock w3, Some c', str_p'))"
  by (simp add: lydict_insert_zc_def Let_def)


text \<open>
  C6, as the code has it. An insert call with context, output pointer and a live input
  string of at least \<open>len\<close> bytes (terminated when \<open>len\<close> is zero), whose \<open>malloc\<close>
  returns a fresh block. The effective length is \<open>len\<close>, or \<open>strlen\<close> of the input when
  \<open>len\<close> is zero, and the private copy is that many bytes of the input and a terminator.
  If no record of the table holds the content of the copy and the table has a slot, the
  copy is what is stored and returned: the fresh block holds it after the call, \<open>*str_p\<close>
  points at it, and the table has one record more, pointing at it with count 1. If the
  table finds the content, the copy is freed again (the memory after the call is the
  memory before it) and \<open>*str_p\<close> is the string pointer of the record found, which
  is not the fresh block and holds the same content.
\<close>

theorem lydict_insert_private_copy:
  fixes c :: ly_ctx and bs :: "char list" and len :: nat
  defines "ht \<equiv> hash_tab (dict c)"
  defines "len1 \<equiv> (if len = 0 then strlen bs else len)"
  defines "copy \<equiv> take len1 bs @ [NUL]"
  defines "incr \<equiv> (\<lambda>d. d\<lparr>dr_refcount := dr_refcount d + 1\<rparr>)"
  assumes ok: "dict_ok (w_mem w) ht"
    and src: "w_mem w v = Some bs" "len \<le> length bs"
    and fresh: "env_malloc env = Some a" "w_mem w a = None"
    and nul: "len = 0 \<longrightarrow> NUL \<in> set bs"
  shows "(len = 0 \<longrightarrow> copy = c_str bs @ [NUL])
       \<and> (\<not> dict_has (w_mem w) ht (c_str copy) \<and> env_rec_ok env \<longrightarrow>
            (\<exists>ht'. lydict_insert hashf w (Some c) (Some v) len (Some old) env =
               (LY_SUCCESS,
                w\<lparr>w_mem := (w_mem w)(a \<mapsto> copy),
                  w_trace := w_trace w @ [MutexLock, LogDbg, MutexUnlock]\<rparr>,
                Some (set_hash_tab c ht'), Some (Some a))
              \<and> mset (lyht_records ht') = mset (lyht_records ht)
                  + {#\<lparr>rec_hash = hashf (take len1 bs),
                        rec_val = \<lparr>dr_value = Some a, dr_refcount = 1\<rparr>\<rparr>#}))
       \<and> (\<forall>pos. dict_find (w_mem w) ht (hashf (take len1 bs)) (c_str copy) = Some pos \<longrightarrow>
            lydict_insert hashf w (Some c) (Some v) len (Some old) env =
              (LY_SUCCESS, w\<lparr>w_trace := w_trace w @ [MutexLock, LogDbg, MutexUnlock]\<rparr>,
               Some (set_hash_tab c (lyht_update_at ht pos incr)),
               Some (dr_value (rec_val (lyht_rec_at ht pos))))
            \<and> rec_string (w_mem w) (lyht_rec_at ht pos) = Some (c_str copy)
            \<and> dr_value (rec_val (lyht_rec_at ht pos)) \<noteq> Some a)"
proof (intro conjI allI impI)
  assume "len = 0"
  then show "copy = c_str bs @ [NUL]" by (simp add: copy_def len1_def take_strlen)
next
  assume "\<not> dict_has (w_mem w) ht (c_str copy) \<and> env_rec_ok env"
  then have absent: "\<not> dict_has (w_mem w) (hash_tab (dict c))
                        (c_str (take (if len = 0 then strlen bs else len) bs @ [NUL]))"
    and slot: "env_rec_ok env"
    by (simp_all add: ht_def copy_def len1_def)
  from lydict_insert_new_step [where hashf = hashf and old = old,
      OF ok [unfolded ht_def] src fresh absent disjI1 [OF slot]]
  show "\<exists>ht'. lydict_insert hashf w (Some c) (Some v) len (Some old) env =
               (LY_SUCCESS,
                w\<lparr>w_mem := (w_mem w)(a \<mapsto> copy),
                  w_trace := w_trace w @ [MutexLock, LogDbg, MutexUnlock]\<rparr>,
                Some (set_hash_tab c ht'), Some (Some a))
              \<and> mset (lyht_records ht') = mset (lyht_records ht)
                  + {#\<lparr>rec_hash = hashf (take len1 bs),
                        rec_val = \<lparr>dr_value = Some a, dr_refcount = 1\<rparr>\<rparr>#}"
    unfolding ht_def copy_def len1_def by blast
next
  fix pos assume "dict_find (w_mem w) ht (hashf (take len1 bs)) (c_str copy) = Some pos"
  then have found: "dict_find (w_mem w) (hash_tab (dict c))
       (hashf (take (if len = 0 then strlen bs else len) bs))
       (c_str (take (if len = 0 then strlen bs else len) bs @ [NUL])) = Some pos"
    by (simp add: ht_def copy_def len1_def)
  note ok' = ok [unfolded ht_def]
  from lydict_insert_dup_step(1) [where hashf = hashf and old = old, OF ok' src fresh found]
  show "lydict_insert hashf w (Some c) (Some v) len (Some old) env =
              (LY_SUCCESS, w\<lparr>w_trace := w_trace w @ [MutexLock, LogDbg, MutexUnlock]\<rparr>,
               Some (set_hash_tab c (lyht_update_at ht pos incr)),
               Some (dr_value (rec_val (lyht_rec_at ht pos))))"
    by (simp add: ht_def incr_def)
  from lydict_insert_dup_step(2) [where hashf = hashf, OF ok' src fresh found]
  show "rec_string (w_mem w) (lyht_rec_at ht pos) = Some (c_str copy)"
    by (simp add: ht_def copy_def len1_def)
  from lydict_insert_dup_step(3) [where hashf = hashf, OF ok' src fresh found]
  show "dr_value (rec_val (lyht_rec_at ht pos)) \<noteq> Some a"
    by (simp add: ht_def)
qed

lemma insert_call_okD:
  assumes "insert_call_ok m S (v, len, env)"
  obtains bs where "m v = Some bs" "len \<le> length bs" "len = 0 \<longrightarrow> NUL \<in> set bs"
    "take (if len = 0 then strlen bs else len) bs = S"
    "\<And>a. env_malloc env = Some a \<Longrightarrow> m a = None"
  using assms by (auto simp: insert_call_ok_def split: option.splits)

lemma lydict_insert_seq_dups:
  fixes c :: ly_ctx and S :: "char list" and hashf :: hash_fn
  assumes ok: "dict_ok (w_mem w) (hash_tab (dict c))"
    and a1: "w_mem w a1 = Some (S @ [NUL])"
    and ms: "mset (lyht_records (hash_tab (dict c)))
               = M0 + {#\<lparr>rec_hash = hashf S, rec_val = \<lparr>dr_value = Some a1, dr_refcount = k\<rparr>\<rparr>#}"
    and M0: "\<forall>r \<in># M0. rec_string (w_mem w) r \<noteq> Some (c_str (S @ [NUL]))"
    and calls: "\<forall>call \<in> set calls. insert_call_ok (w_mem w) S call"
  shows "\<exists>w' c'.
     lydict_insert_seq hashf w (Some c) calls
       = (map (\<lambda>call. if env_malloc (snd (snd call)) = None then (LY_EMEM, Some None)
                   else (LY_SUCCESS, Some (Some a1))) calls, w', Some c')
     \<and> w_mem w' = w_mem w
     \<and> mset (lyht_records (hash_tab (dict c')))
         = M0 + {#\<lparr>rec_hash = hashf S, rec_val = \<lparr>dr_value = Some a1,
                    dr_refcount = k + word_of_nat
                      (length (filter (\<lambda>call. env_malloc (snd (snd call)) \<noteq> None) calls))\<rparr>\<rparr>#}"
  using ok a1 ms M0 calls
proof (induction calls arbitrary: w c k)
  case Nil
  then show ?case by simp
next
  case (Cons call calls)
  obtain v len e where call: "call = (v, len, e)" by (cases call)
  from Cons.prems(5) have cok: "insert_call_ok (w_mem w) S (v, len, e)"
    and rest: "\<forall>call \<in> set calls. insert_call_ok (w_mem w) S call"
    by (simp_all add: call)
  from cok obtain bs where src: "w_mem w v = Some bs" "len \<le> length bs"
    and S: "take (if len = 0 then strlen bs else len) bs = S"
    and fr: "\<And>a. env_malloc e = Some a \<Longrightarrow> w_mem w a = None"
    by (rule insert_call_okD) blast
  let ?ht = "hash_tab (dict c)"
  let ?r0 = "\<lparr>rec_hash = hashf S, rec_val = \<lparr>dr_value = Some a1, dr_refcount = k\<rparr>\<rparr>"
  show ?case
  proof (cases "env_malloc e")
    case None
    let ?w1 = "log_event LogMem w"
    have step: "lydict_insert hashf w (Some c) (Some v) len (Some None) e
                  = (LY_EMEM, ?w1, Some c, Some None)"
      using None by (rule lydict_insert_malloc_None)
    from Cons.IH [of ?w1 c k] Cons.prems(1-4) rest
    obtain w' c' where
      "lydict_insert_seq hashf ?w1 (Some c) calls
         = (map (\<lambda>call. if env_malloc (snd (snd call)) = None then (LY_EMEM, Some None)
                   else (LY_SUCCESS, Some (Some a1))) calls, w', Some c')"
      "w_mem w' = w_mem w"
      "mset (lyht_records (hash_tab (dict c')))
         = M0 + {#\<lparr>rec_hash = hashf S, rec_val = \<lparr>dr_value = Some a1,
                    dr_refcount = k + word_of_nat
                      (length (filter (\<lambda>call. env_malloc (snd (snd call)) \<noteq> None) calls))\<rparr>\<rparr>#}"
      by auto
    with step None show ?thesis by (simp add: call)
  next
    case (Some a)
    with fr have fresh: "w_mem w a = None" by simp
    from Cons.prems have ok: "dict_ok (w_mem w) ?ht"
      and a1: "w_mem w a1 = Some (S @ [NUL])" by simp_all
    from ok have wf: "lyht_wf ?ht" by (simp add: dict_ok_def)
    have in0: "?r0 \<in> set (lyht_records ?ht)"
    proof -
      have "?r0 \<in># mset (lyht_records ?ht)" using Cons.prems(3) by simp
      then show ?thesis by simp
    qed
    have str0: "rec_string (w_mem w) ?r0 = Some (c_str (S @ [NUL]))"
      using a1 by (simp add: rec_string_def mem_read_Some)
    have uniq: "r' = ?r0"
      if "r' \<in> set (lyht_records ?ht)" "rec_string (w_mem w) r' = Some (c_str (S @ [NUL]))" for r'
    proof -
      from that(1) have "r' \<in># mset (lyht_records ?ht)" by simp
      then have "r' \<in># M0 \<or> r' = ?r0" using Cons.prems(3) by auto
      with that(2) Cons.prems(4) show ?thesis by auto
    qed
    from dict_find_unique [OF wf in0 str0 uniq]
    obtain pos where found: "dict_find (w_mem w) ?ht (hashf S) (c_str (S @ [NUL])) = Some pos"
      and pok: "pos_ok ?ht pos" and at: "lyht_rec_at ?ht pos = ?r0"
      by auto
    let ?incr = "\<lambda>d. d\<lparr>dr_refcount := dr_refcount d + 1\<rparr>"
    let ?ht1 = "lyht_update_at ?ht pos ?incr"
    let ?w1 = "w\<lparr>w_trace := w_trace w @ [MutexLock, LogDbg, MutexUnlock]\<rparr>"
    let ?c1 = "set_hash_tab c ?ht1"
    note found' = found [folded S]
    from lydict_insert_dup_step(1) [where hashf = hashf and old = None,
        OF ok src Some fresh found']
    have step: "lydict_insert hashf w (Some c) (Some v) len (Some None) e
                  = (LY_SUCCESS, ?w1, Some ?c1, Some (Some a1))"
      by (simp add: at)
    from lydict_insert_dup_step(4) [where hashf = hashf, OF ok src Some fresh found']
    have ok1: "dict_ok (w_mem w) ?ht1" .
    from update_at_props(3) [OF wf pok, of ?incr]
    have "mset (lyht_records ?ht1) + {#?r0#}
            = mset (lyht_records ?ht) + {#\<lparr>rec_hash = hashf S, rec_val = \<lparr>dr_value = Some a1, dr_refcount = k + 1\<rparr>\<rparr>#}"
      by (simp add: at)
    then have ms1: "mset (lyht_records (hash_tab (dict ?c1)))
            = M0 + {#\<lparr>rec_hash = hashf S, rec_val = \<lparr>dr_value = Some a1, dr_refcount = k + 1\<rparr>\<rparr>#}"
      using Cons.prems(3) by simp
    from Cons.IH [of ?w1 ?c1 "k + 1"] ok1 a1 ms1 Cons.prems(4) rest
    obtain w' c' where
      "lydict_insert_seq hashf ?w1 (Some ?c1) calls
         = (map (\<lambda>call. if env_malloc (snd (snd call)) = None then (LY_EMEM, Some None)
                   else (LY_SUCCESS, Some (Some a1))) calls, w', Some c')"
      "w_mem w' = w_mem w"
      "mset (lyht_records (hash_tab (dict c')))
         = M0 + {#\<lparr>rec_hash = hashf S, rec_val = \<lparr>dr_value = Some a1,
                    dr_refcount = k + 1 + word_of_nat
                      (length (filter (\<lambda>call. env_malloc (snd (snd call)) \<noteq> None) calls))\<rparr>\<rparr>#}"
      by auto
    with step Some show ?thesis by (simp add: call ac_simps)
  qed
qed

lemma insert_call_ok_upd:
  assumes "insert_call_ok (m(a1 \<mapsto> x)) S call"
  shows "\<forall>a. env_malloc (snd (snd call)) = Some a \<longrightarrow> m a = None \<and> a \<noteq> a1"
  using assms by (auto simp: insert_call_ok_def split: option.splits prod.splits if_splits)

lemma lydict_insert_seq_first_then_dups:
  fixes c :: ly_ctx and S :: "char list" and hashf :: hash_fn
  defines "ht \<equiv> hash_tab (dict c)"
  assumes ok: "dict_ok (w_mem w) ht"
    and absent: "\<not> dict_has (w_mem w) ht (c_str (S @ [NUL]))"
    and first: "insert_call_ok (w_mem w) S (v1, len1, e1)" "env_malloc e1 = Some a1"
      "env_rec_ok e1 \<or> ht_free ht \<noteq> []"
    and rest: "\<forall>call \<in> set calls. insert_call_ok ((w_mem w)(a1 \<mapsto> S @ [NUL])) S call"
  shows "\<exists>w' c'.
     lydict_insert_seq hashf w (Some c) ((v1, len1, e1) # calls)
       = ((LY_SUCCESS, Some (Some a1)) #
            map (\<lambda>call. if env_malloc (snd (snd call)) = None then (LY_EMEM, Some None)
                     else (LY_SUCCESS, Some (Some a1))) calls, w', Some c')
     \<and> w_mem w' = (w_mem w)(a1 \<mapsto> S @ [NUL])
     \<and> mset (lyht_records (hash_tab (dict c')))
         = mset (lyht_records ht)
           + {#\<lparr>rec_hash = hashf S, rec_val = \<lparr>dr_value = Some a1,
                 dr_refcount = 1 + word_of_nat
                   (length (filter (\<lambda>call. env_malloc (snd (snd call)) \<noteq> None) calls))\<rparr>\<rparr>#}"
proof -
  let ?m1 = "(w_mem w)(a1 \<mapsto> S @ [NUL])"
  let ?w1 = "w\<lparr>w_mem := ?m1, w_trace := w_trace w @ [MutexLock, LogDbg, MutexUnlock]\<rparr>"
  from first(1) obtain bs where src: "w_mem w v1 = Some bs" "len1 \<le> length bs"
    and S: "take (if len1 = 0 then strlen bs else len1) bs = S"
    and fr: "\<And>a. env_malloc e1 = Some a \<Longrightarrow> w_mem w a = None"
    by (rule insert_call_okD) blast
  from fr first(2) have fresh: "w_mem w a1 = None" by simp
  note absent' = absent [unfolded ht_def, folded S]
  from lydict_insert_new_step [where hashf = hashf and old = None,
      OF ok [unfolded ht_def] src first(2) fresh absent' first(3) [unfolded ht_def]]
  obtain ht' where step: "lydict_insert hashf w (Some c) (Some v1) len1 (Some None) e1 =
            (LY_SUCCESS, ?w1, Some (set_hash_tab c ht'), Some (Some a1))"
    and ok1: "dict_ok ?m1 ht'"
    and ms1: "mset (lyht_records ht') = mset (lyht_records ht)
             + {#\<lparr>rec_hash = hashf S, rec_val = \<lparr>dr_value = Some a1, dr_refcount = 1\<rparr>\<rparr>#}"
    unfolding ht_def S by blast
  have M0: "\<forall>r \<in># mset (lyht_records ht). rec_string ?m1 r \<noteq> Some (c_str (S @ [NUL]))"
    using absent rec_string_upd_fresh [OF ok fresh] by (auto simp: dict_has_def)
  from lydict_insert_seq_dups [where hashf = hashf and w = ?w1 and c = "set_hash_tab c ht'"
      and S = S and ?a1.0 = a1 and k = 1
      and ?M0.0 = "mset (lyht_records ht)" and calls = calls]
    ok1 ms1 M0 rest
  obtain w' c' where
    "lydict_insert_seq hashf ?w1 (Some (set_hash_tab c ht')) calls
       = (map (\<lambda>call. if env_malloc (snd (snd call)) = None then (LY_EMEM, Some None)
                   else (LY_SUCCESS, Some (Some a1))) calls, w', Some c')"
    "w_mem w' = ?m1"
    "mset (lyht_records (hash_tab (dict c')))
         = mset (lyht_records ht)
           + {#\<lparr>rec_hash = hashf S, rec_val = \<lparr>dr_value = Some a1,
                 dr_refcount = 1 + word_of_nat
                   (length (filter (\<lambda>call. env_malloc (snd (snd call)) \<noteq> None) calls))\<rparr>\<rparr>#}"
    by auto
  with step show ?thesis by simp
qed

text \<open>
  C1, as the code has it. Insert calls for the bytes \<open>S\<close>, run one after the other (the
  lock serialises them), on a dictionary that does not hold the content. Each call has
  its own input pointer and length: a live block whose first \<open>len\<close> bytes (those before
  the terminator when \<open>len\<close> is 0) are \<open>S\<close>, in the memory the call runs in; after the
  first call that memory holds the first call's copy, so a later call may pass the
  returned pointer itself. Each \<open>malloc\<close> returns null or a block that is not live. If
  every call returns \<open>LY_SUCCESS\<close>, then every call returns the same pointer, the
  private copy of the first call, and afterwards the table has one record more, pointing
  at that copy, whose reference count is the number of calls as a \<open>uint32_t\<close>: the
  number modulo \<open>2^32\<close>.
\<close>

theorem lydict_insert_seq_same_pointer:
  fixes c :: ly_ctx and S :: "char list" and hashf :: hash_fn
  defines "ht \<equiv> hash_tab (dict c)"
  assumes ok: "dict_ok (w_mem w) ht"
    and absent: "\<not> dict_has (w_mem w) ht (c_str (S @ [NUL]))"
    and first: "insert_call_ok (w_mem w) S (v1, len1, e1)"
    and later: "\<forall>a1. env_malloc e1 = Some a1 \<longrightarrow>
                  (\<forall>call \<in> set calls. insert_call_ok ((w_mem w)(a1 \<mapsto> S @ [NUL])) S call)"
    and succeed: "\<forall>x \<in> set (fst (lydict_insert_seq hashf w (Some c) ((v1, len1, e1) # calls))).
                    fst x = LY_SUCCESS"
  shows "\<exists>a1 w' c'. env_malloc e1 = Some a1
     \<and> lydict_insert_seq hashf w (Some c) ((v1, len1, e1) # calls)
         = (replicate (Suc (length calls)) (LY_SUCCESS, Some (Some a1)), w', Some c')
     \<and> w_mem w' = (w_mem w)(a1 \<mapsto> S @ [NUL])
     \<and> mset (lyht_records (hash_tab (dict c')))
         = mset (lyht_records ht)
           + {#\<lparr>rec_hash = hashf S,
                 rec_val = \<lparr>dr_value = Some a1, dr_refcount = word_of_nat (Suc (length calls))\<rparr>\<rparr>#}"
proof -
  from first obtain bs where src: "w_mem w v1 = Some bs" "len1 \<le> length bs"
    and S: "take (if len1 = 0 then strlen bs else len1) bs = S"
    and fr: "\<And>a. env_malloc e1 = Some a \<Longrightarrow> w_mem w a = None"
    by (rule insert_call_okD) blast
  have first_ok: "fst (lydict_insert hashf w (Some c) (Some v1) len1 (Some None) e1) = LY_SUCCESS"
    using succeed by (auto split: prod.splits)
  have "env_malloc e1 \<noteq> None"
  proof
    assume "env_malloc e1 = None"
    from lydict_insert_malloc_None [OF this, of hashf w c v1 len1 None] first_ok
    show False by simp
  qed
  then obtain a1 where a1: "env_malloc e1 = Some a1" by auto
  with fr have fresh: "w_mem w a1 = None" by simp
  note ok' = ok [unfolded ht_def]
  note absent' = absent [unfolded ht_def]
  have slot: "env_rec_ok e1 \<or> ht_free (hash_tab (dict c)) \<noteq> []"
  proof (rule ccontr)
    assume "\<not> (env_rec_ok e1 \<or> ht_free (hash_tab (dict c)) \<noteq> [])"
    then have no: "\<not> env_rec_ok e1" "ht_free (hash_tab (dict c)) = []" by simp_all
    from lydict_insert_no_slot_step [where hashf = hashf and old = None,
        OF ok' src(1) a1 fresh absent' [folded S] no] first_ok
    show False by simp
  qed
  from later a1 have rest: "\<forall>call \<in> set calls. insert_call_ok ((w_mem w)(a1 \<mapsto> S @ [NUL])) S call"
    by simp
  from lydict_insert_seq_first_then_dups [where hashf = hashf, OF ok' absent' first a1 slot rest]
  obtain w' c' where seq: "lydict_insert_seq hashf w (Some c) ((v1, len1, e1) # calls)
       = ((LY_SUCCESS, Some (Some a1)) #
            map (\<lambda>call. if env_malloc (snd (snd call)) = None then (LY_EMEM, Some None)
                     else (LY_SUCCESS, Some (Some a1))) calls, w', Some c')"
    and mem: "w_mem w' = (w_mem w)(a1 \<mapsto> S @ [NUL])"
    and ms: "mset (lyht_records (hash_tab (dict c')))
         = mset (lyht_records ht)
           + {#\<lparr>rec_hash = hashf S, rec_val = \<lparr>dr_value = Some a1,
                 dr_refcount = 1 + word_of_nat
                   (length (filter (\<lambda>call. env_malloc (snd (snd call)) \<noteq> None) calls))\<rparr>\<rparr>#}"
    unfolding ht_def by blast
  have all: "\<forall>call \<in> set calls. env_malloc (snd (snd call)) \<noteq> None"
  proof
    fix call assume e: "call \<in> set calls"
    then have "(if env_malloc (snd (snd call)) = None then (LY_EMEM, Some None)
                else (LY_SUCCESS, Some (Some a1)))
                 \<in> set (fst (lydict_insert_seq hashf w (Some c) ((v1, len1, e1) # calls)))"
      unfolding seq by simp
    with succeed have "fst (if env_malloc (snd (snd call)) = None then (LY_EMEM, Some None)
                             else (LY_SUCCESS, Some (Some a1))) = LY_SUCCESS"
      by blast
    then show "env_malloc (snd (snd call)) \<noteq> None" by (auto split: if_splits)
  qed
  then have flt: "filter (\<lambda>call. env_malloc (snd (snd call)) \<noteq> None) calls = calls" by simp
  have mp: "map (\<lambda>call. if env_malloc (snd (snd call)) = None then (LY_EMEM, Some None)
                     else (LY_SUCCESS, Some (Some a1))) calls
            = replicate (length calls) (LY_SUCCESS, Some (Some a1))"
    using all by (simp add: map_replicate_const [symmetric])
  note seq' = seq [unfolded mp]
  note ms' = ms [unfolded flt]
  show ?thesis
    using a1 seq' mem ms' by simp
qed


section \<open>The leak scan of lydict\_clean\<close>

lemma clean_rec_trace:
  "w_trace (lydict_clean_rec ndebug s w) =
     w_trace w @ (if rec_hits s = 1 then [leak_warning (lyht_rec_of s)] else [])"
  by (simp add: lydict_clean_rec_def leak_warning_def Let_def)

lemma clean_rec_mem_debug: "w_mem (lydict_clean_rec False s w) = w_mem w"
  by (simp add: lydict_clean_rec_def Let_def)

lemma clean_rec_mem_ndebug:
  "w_mem (lydict_clean_rec True s w) =
     (\<lambda>p. if rec_hits s = 1 \<and> dr_value (rec_val s) = Some p then None else w_mem w p)"
  by (cases "dr_value (rec_val s)") (auto simp: lydict_clean_rec_def Let_def fun_eq_iff)

lemma fold_clean_trace:
  "w_trace (fold (\<lambda>i. lydict_clean_rec ndebug (g i)) is w) =
     w_trace w @ map (\<lambda>i. leak_warning (lyht_rec_of (g i))) (filter (\<lambda>i. rec_hits (g i) = 1) is)"
  by (induction "is" arbitrary: w) (simp_all add: clean_rec_trace)

lemma fold_clean_mem_debug:
  "w_mem (fold (\<lambda>i. lydict_clean_rec False (g i)) is w) = w_mem w"
  by (induction "is" arbitrary: w) (simp_all add: clean_rec_mem_debug)

lemma fold_clean_mem_ndebug:
  "w_mem (fold (\<lambda>i. lydict_clean_rec True (g i)) is w) =
     (\<lambda>p. if Some p \<in> (\<lambda>i. dr_value (rec_val (g i))) ` set (filter (\<lambda>i. rec_hits (g i) = 1) is)
          then None else w_mem w p)"
proof (induction "is" arbitrary: w)
  case Nil
  then show ?case by simp
next
  case (Cons i "is")
  show ?case
    by (auto simp: Cons.IH clean_rec_mem_ndebug fun_eq_iff image_iff)
qed

text \<open>
  In a well-formed table whose record array has \<open>size\<close> slots, the slots that the loop
  of \<open>lydict_clean\<close> takes are the slots in use, each once.
\<close>

lemma clean_slots_live:
  assumes wf: "lyht_wf ht" and recs: "length (ht_recs ht) = ht_size ht"
  shows "mset (filter (\<lambda>i. rec_hits (lyht_get_rec (ht_recs ht) i) = 1) [0..<ht_size ht])
           = mset (lyht_live ht)"
proof -
  let ?L = "filter (\<lambda>i. rec_hits (lyht_get_rec (ht_recs ht) i) = 1) [0..<ht_size ht]"
  from wf have hits: "\<And>i. i < length (ht_recs ht) \<Longrightarrow>
      (rec_hits (ht_recs ht ! i) = 1) = (i \<in> set (lyht_live ht))"
    by (simp add: lyht_wf_iff)
  have st: "set ?L = set (lyht_live ht)"
  proof (intro set_eqI iffI)
    fix i assume "i \<in> set ?L"
    then have "i < length (ht_recs ht)" "rec_hits (ht_recs ht ! i) = 1"
      by (auto simp: recs)
    with hits show "i \<in> set (lyht_live ht)" by simp
  next
    fix i assume i: "i \<in> set (lyht_live ht)"
    from live_less [OF wf i] hits [of i] i show "i \<in> set ?L"
      by (simp add: recs)
  qed
  have d: "distinct ?L" by simp
  from set_eq_iff_mset_eq_distinct [OF d live_distinct [OF wf]] st
  show ?thesis by (rule iffD1)
qed



section \<open>The statements at concrete states\<close>

lemmas ex_simps = ex_hash_def ex_ht_def ex_ctx_def ex_env_def ex_world_def
  ex_eth0_n_def NUL_def c_str_def mem_read_def

lemma ex_bucket_4: "lyht_bucket 8 4 = 4"
  by (simp add: lyht_bucket_def)

lemma ex_size [simp]: "ht_size (ex_ht ch) = 8"
  by (simp add: ex_ht_def)

lemma ex_live: "lyht_live (ex_ht ch) = [0..<length ch]"
  by (simp add: lyht_live_def ex_ht_def)

lemma ex_get_rec:
  "i < length ch \<Longrightarrow> lyht_get_rec (ht_recs (ex_ht ch)) i
     = \<lparr>rec_hash = rec_hash (ch ! i), rec_val = rec_val (ch ! i), rec_hits = 1\<rparr>"
  by (simp add: lyht_get_rec_def ex_ht_def nth_append)

lemma ex_records: "lyht_records (ex_ht ch) = ch"
proof -
  have "map (\<lambda>i. lyht_rec_of (lyht_get_rec (ht_recs (ex_ht ch)) i)) [0..<length ch]
          = map (\<lambda>i. ch ! i) [0..<length ch]"
    by (intro map_cong) (simp_all add: ex_get_rec lyht_rec_of_def)
  then show ?thesis by (simp add: lyht_records_def ex_live map_nth)
qed

lemma ex_chain_4: "lyht_chain (ex_ht ch) 4 = [0..<length ch]"
  by (simp add: lyht_chain_def ex_ht_def)

lemma ex_buckets_nth:
  assumes "b < 8" and "i \<in> set (ht_buckets (ex_ht ch) ! b)"
  shows "b = 4 \<and> i < length ch"
proof -
  from assms(1) have "b \<in> {0, 1, 2, 3, 4, 5, 6, 7}" by auto
  with assms(2) show ?thesis by (auto simp: ex_ht_def)
qed

lemma ex_wf:
  assumes "\<forall>r \<in> set ch. rec_hash r = 4" and le: "length ch \<le> 8"
  shows "lyht_wf (ex_ht ch)"
  unfolding lyht_wf_iff
proof (intro conjI allI impI ballI)
  show "0 < ht_size (ex_ht ch)" by simp
  show "length (ht_buckets (ex_ht ch)) = ht_size (ex_ht ch)" by (simp add: ex_ht_def)
  show "ht_used (ex_ht ch) = length (lyht_live (ex_ht ch))" by (simp add: ex_live) (simp add: ex_ht_def)
  from le obtain k where k: "8 = length ch + k" by (auto dest: le_Suc_ex)
  have "[0..<length ch] @ [length ch..<8] = [0..<8]"
    unfolding k using upt_add_eq_append [of 0 "length ch" k] by simp
  then have "mset [0..<length ch] + mset [length ch..<8] = mset [0..<8]"
    by (simp only: mset_append [symmetric])
  moreover have "ht_free (ex_ht ch) = [length ch..<8]" "length (ht_recs (ex_ht ch)) = 8"
    using le by (simp_all add: ex_ht_def)
  ultimately show "mset (lyht_live (ex_ht ch)) + mset (ht_free (ex_ht ch))
      = mset [0..<length (ht_recs (ex_ht ch))]"
    by (simp only: ex_live)
next
  fix b i assume "b < ht_size (ex_ht ch)" "i \<in> set (ht_buckets (ex_ht ch) ! b)"
  then have b: "b = 4" and i: "i < length ch" using ex_buckets_nth [of b i ch] by simp_all
  from i le have "ht_recs (ex_ht ch) ! i = lyht_get_rec (ht_recs (ex_ht ch)) i"
    by (simp add: ex_ht_def)
  with i assms(1) show "lyht_bucket (ht_size (ex_ht ch)) (rec_hash (ht_recs (ex_ht ch) ! i)) = b"
    by (simp add: ex_get_rec b ex_bucket_4)
next
  fix i assume "i < length (ht_recs (ex_ht ch))"
  then have i: "i < 8" using le by (simp add: ex_ht_def)
  have lv: "(i \<in> set (lyht_live (ex_ht ch))) = (i < length ch)" by (simp add: ex_live)
  have "rec_hits (ht_recs (ex_ht ch) ! i) = (if i < length ch then 1 else 0)"
    using i le by (simp add: ex_ht_def nth_append lyht_no_rec_def)
  then show "(rec_hits (ht_recs (ex_ht ch) ! i) = 1) = (i \<in> set (lyht_live (ex_ht ch)))"
    unfolding lv by simp
qed

lemma ex_recs_length: "length ch \<le> 8 \<Longrightarrow> length (ht_recs (ex_ht ch)) = ht_size (ex_ht ch)"
  by (simp add: ex_ht_def)

lemma ex_find_eth0:
  "m 1 = Some (''eth0'' @ [NUL]) \<Longrightarrow>
     dict_find m (ex_ht [ex_eth0_n k]) 4 ''eth0'' = Some 0"
  by (simp add: dict_find_def ex_bucket_4 ex_chain_4 lyht_rec_at_def ex_get_rec)
     (simp add: rec_string_def ex_eth0_n_def mem_read_def c_str_def NUL_def)

lemma ex_rec_at: "lyht_rec_at (ex_ht [r]) 0 = r"
  by (simp add: lyht_rec_at_def ex_get_rec lyht_rec_of_def)

lemma ex_update_at:
  "lyht_update_at (ex_ht [r]) 0 f = ex_ht [r\<lparr>rec_val := f (rec_val r)\<rparr>]"
  by (simp add: lyht_update_at_def ex_get_rec) (simp add: ex_ht_def)

lemma mset_single_list: "mset xs = {#x#} \<Longrightarrow> xs = [x]"
  by (cases xs) auto

lemma ex_dict_ok_empty: "dict_ok m (ex_ht [])"
  by (simp add: dict_ok_def ex_wf ex_records)

lemma ex_dict_ok_eth0:
  "m 1 = Some (''eth0'' @ [NUL]) \<Longrightarrow> dict_ok m (ex_ht [ex_eth0_n k])"
  by (simp add: dict_ok_def ex_wf ex_records ex_eth0_n_def)

lemma ex_hash_tab [simp]: "hash_tab (dict (ex_ctx ch)) = ex_ht ch"
  by (simp add: ex_ctx_def)

lemma ex_set_hash_tab: "set_hash_tab (ex_ctx ch) (ex_ht ch') = ex_ctx ch'"
  by (simp add: set_hash_tab_def ex_ctx_def)


theorem lydict_remove_absent_not_found_witness:
  "lydict_remove ex_hash (ex_world [1 \<mapsto> ''eth0'' @ [NUL], 100 \<mapsto> ''eth1'' @ [NUL]])
      (Some (ex_ctx [ex_eth0_n 1])) (Some 100) True
     = (LY_ENOTFOUND,
        \<lparr>w_mem = [1 \<mapsto> ''eth0'' @ [NUL], 100 \<mapsto> ''eth1'' @ [NUL]],
          w_trace = [LogDbg, MutexLock, LogErr LY_ENOTFOUND ''eth1'', MutexUnlock]\<rparr>,
        Some (ex_ctx [ex_eth0_n 1]))"
proof -
  let ?w = "ex_world [1 \<mapsto> ''eth0'' @ [NUL], 100 \<mapsto> ''eth1'' @ [NUL]]"
  have live: "w_mem ?w 100 = Some (''eth1'' @ [NUL])" and nul: "NUL \<in> set (''eth1'' @ [NUL])"
    by (simp_all add: ex_world_def)
  have absent: "\<not> dict_has (w_mem ?w) (hash_tab (dict (ex_ctx [ex_eth0_n 1])))
                  (c_str (''eth1'' @ [NUL]))"
    by (simp add: dict_has_def ex_ctx_def ex_records) (simp add: ex_simps rec_string_def)
  from lydict_remove_absent_not_found [where hashf = ex_hash and resize_ok = True,
      OF live nul absent]
  show ?thesis by (simp add: ex_simps)
qed

theorem lydict_remove_found_decrements_witness:
  "lydict_remove ex_hash (ex_world [1 \<mapsto> ''eth0'' @ [NUL]])
      (Some (ex_ctx [ex_eth0_n 2])) (Some 1) True
     = (LY_SUCCESS,
        \<lparr>w_mem = [1 \<mapsto> ''eth0'' @ [NUL]], w_trace = [LogDbg, MutexLock, MutexUnlock]\<rparr>,
        Some (ex_ctx [ex_eth0_n 1]))
   \<and> fst (lydict_remove ex_hash (ex_world [1 \<mapsto> ''eth0'' @ [NUL]])
      (Some (ex_ctx [ex_eth0_n 1])) (Some 1) True) = LY_SUCCESS
   \<and> w_mem (fst (snd (lydict_remove ex_hash (ex_world [1 \<mapsto> ''eth0'' @ [NUL]])
      (Some (ex_ctx [ex_eth0_n 1])) (Some 1) True))) 1 = None
   \<and> dict_records (snd (snd (lydict_remove ex_hash (ex_world [1 \<mapsto> ''eth0'' @ [NUL]])
      (Some (ex_ctx [ex_eth0_n 1])) (Some 1) True))) = []"
proof -
  let ?w = "ex_world [1 \<mapsto> ''eth0'' @ [NUL]]"
  have s: "c_str (''eth0'' @ [NUL]) = ''eth0''" and h: "ex_hash ''eth0'' = 4"
    by (simp_all add: ex_simps)
  have live: "w_mem ?w 1 = Some (''eth0'' @ [NUL])" and nul: "NUL \<in> set (''eth0'' @ [NUL])"
    by (simp_all add: ex_world_def)
  have f: "dict_find (w_mem ?w) (hash_tab (dict (ex_ctx [ex_eth0_n k])))
             (ex_hash (c_str (''eth0'' @ [NUL]))) (c_str (''eth0'' @ [NUL])) = Some 0" for k
    unfolding s h by (simp add: ex_ctx_def ex_find_eth0 ex_world_def)
  have wf: "lyht_wf (hash_tab (dict (ex_ctx [ex_eth0_n k])))" for k
    by (simp add: ex_ctx_def ex_wf ex_eth0_n_def)
  from lydict_remove_found_decrements [where hashf = ex_hash and resize_ok = True,
      OF wf [of 2] live nul f [of 2]]
  have a: "lydict_remove ex_hash ?w (Some (ex_ctx [ex_eth0_n 2])) (Some 1) True
     = (LY_SUCCESS,
        \<lparr>w_mem = [1 \<mapsto> ''eth0'' @ [NUL]], w_trace = [LogDbg, MutexLock, MutexUnlock]\<rparr>,
        Some (ex_ctx [ex_eth0_n 1]))"
    by (simp add: ex_ctx_def ex_rec_at ex_update_at set_hash_tab_def)
       (simp add: ex_eth0_n_def ex_world_def)
  from lydict_remove_found_decrements [where hashf = ex_hash and resize_ok = True,
      OF wf [of 1] live nul f [of 1]]
  obtain ht' where b: "lydict_remove ex_hash ?w (Some (ex_ctx [ex_eth0_n 1])) (Some 1) True
     = (LY_SUCCESS, free_ptr (Some 1) (?w\<lparr>w_trace := w_trace ?w @ [LogDbg, MutexLock, MutexUnlock]\<rparr>),
        Some (set_hash_tab (ex_ctx [ex_eth0_n 1]) ht'))"
    and m: "mset (lyht_records ht') + {#ex_eth0_n 1#} = {#ex_eth0_n 1#}"
    by (auto simp: ex_ctx_def ex_rec_at ex_records ex_eth0_n_def)
  from m have "lyht_records ht' = []" by simp
  with a b show ?thesis by (simp add: dict_records_def ex_world_def)
qed



text \<open>
  C6 as stated fails when the content is already stored: "eth0" is in the table at
  address 1, and an insert of "eth0" whose \<open>malloc\<close> returns address 2 gives back
  address 1. The string returned is the one stored before the call, not a freshly
  allocated copy, and block 2 is not allocated after the call.
\<close>

theorem lydict_insert_duplicate_returns_stored_pointer:
  "lydict_insert ex_hash (ex_world [1 \<mapsto> ''eth0'' @ [NUL], 100 \<mapsto> ''eth0'' @ [NUL]])
      (Some (ex_ctx [ex_eth0_n 1])) (Some 100) 0 (Some None) (ex_env (Some 2))
     = (LY_SUCCESS,
        \<lparr>w_mem = [1 \<mapsto> ''eth0'' @ [NUL], 100 \<mapsto> ''eth0'' @ [NUL]],
          w_trace = [MutexLock, LogDbg, MutexUnlock]\<rparr>,
        Some (ex_ctx [ex_eth0_n 2]), Some (Some 1))
   \<and> w_mem (fst (snd (lydict_insert ex_hash
        (ex_world [1 \<mapsto> ''eth0'' @ [NUL], 100 \<mapsto> ''eth0'' @ [NUL]])
        (Some (ex_ctx [ex_eth0_n 1])) (Some 100) 0 (Some None) (ex_env (Some 2))))) 2
      = None"
proof -
  let ?w = "ex_world [1 \<mapsto> ''eth0'' @ [NUL], 100 \<mapsto> ''eth0'' @ [NUL]]"
  have t: "take (if (0::nat) = 0 then strlen (''eth0'' @ [NUL]) else 0) (''eth0'' @ [NUL]) = ''eth0''"
    and s: "c_str (''eth0'' @ [NUL]) = ''eth0''"
    and h: "ex_hash ''eth0'' = 4"
    by (simp_all add: ex_simps strlen_def)
  have ok: "dict_ok (w_mem ?w) (hash_tab (dict (ex_ctx [ex_eth0_n 1])))"
    by (simp add: ex_dict_ok_eth0 ex_world_def)
  have src: "w_mem ?w 100 = Some (''eth0'' @ [NUL])" "0 \<le> length (''eth0'' @ [NUL])"
    by (simp_all add: ex_world_def)
  have fresh: "env_malloc (ex_env (Some 2)) = Some 2" "w_mem ?w 2 = None"
    by (simp_all add: ex_env_def ex_world_def)
  have f: "dict_find (w_mem ?w) (hash_tab (dict (ex_ctx [ex_eth0_n 1])))
      (ex_hash (take (if (0::nat) = 0 then strlen (''eth0'' @ [NUL]) else 0) (''eth0'' @ [NUL])))
      (c_str (take (if (0::nat) = 0 then strlen (''eth0'' @ [NUL]) else 0) (''eth0'' @ [NUL]) @ [NUL]))
        = Some 0"
    unfolding t s h by (simp add: ex_find_eth0 ex_world_def)
  from lydict_insert_dup_step(1) [where hashf = ex_hash and old = None, OF ok src fresh f]
  show ?thesis
    by (simp add: ex_rec_at ex_update_at ex_set_hash_tab)
       (simp add: ex_eth0_n_def ex_world_def)
qed

theorem lydict_insert_private_copy_witness:
  "fst (lydict_insert ex_hash (ex_world [100 \<mapsto> ''eth0/1'' @ [NUL]])
      (Some (ex_ctx [])) (Some 100) 4 (Some None) (ex_env (Some 2))) = LY_SUCCESS
   \<and> snd (snd (snd (lydict_insert ex_hash (ex_world [100 \<mapsto> ''eth0/1'' @ [NUL]])
      (Some (ex_ctx [])) (Some 100) 4 (Some None) (ex_env (Some 2))))) = Some (Some 2)
   \<and> w_mem (fst (snd (lydict_insert ex_hash (ex_world [100 \<mapsto> ''eth0/1'' @ [NUL]])
      (Some (ex_ctx [])) (Some 100) 4 (Some None) (ex_env (Some 2))))) 2
        = Some (''eth0'' @ [NUL])
   \<and> dict_records (fst (snd (snd (lydict_insert ex_hash (ex_world [100 \<mapsto> ''eth0/1'' @ [NUL]])
      (Some (ex_ctx [])) (Some 100) 4 (Some None) (ex_env (Some 2))))))
        = [\<lparr>rec_hash = 4, rec_val = \<lparr>dr_value = Some 2, dr_refcount = 1\<rparr>\<rparr>]"
proof -
  let ?w = "ex_world [100 \<mapsto> ''eth0/1'' @ [NUL]]"
  have t: "take (if (4::nat) = 0 then strlen (''eth0/1'' @ [NUL]) else 4) (''eth0/1'' @ [NUL]) = ''eth0''"
    and s: "c_str (''eth0'' @ [NUL]) = ''eth0''"
    and h: "ex_hash ''eth0'' = 4"
    by (simp_all add: ex_simps)
  have ok: "dict_ok (w_mem ?w) (hash_tab (dict (ex_ctx [])))"
    by (simp add: ex_dict_ok_empty)
  have src: "w_mem ?w 100 = Some (''eth0/1'' @ [NUL])" "4 \<le> length (''eth0/1'' @ [NUL])"
    by (simp_all add: ex_world_def)
  have fresh: "env_malloc (ex_env (Some 2)) = Some 2" "w_mem ?w 2 = None"
    by (simp_all add: ex_env_def ex_world_def)
  have absent: "\<not> dict_has (w_mem ?w) (hash_tab (dict (ex_ctx []))) x" for x
    by (simp add: dict_has_def ex_records)
  have slot: "env_rec_ok (ex_env (Some 2))" by (simp add: ex_env_def)
  have nul: "(4::nat) = 0 \<longrightarrow> NUL \<in> set (''eth0/1'' @ [NUL])" by simp
  from lydict_insert_private_copy [where hashf = ex_hash and old = None, OF ok src fresh nul]
    absent slot
  obtain ht' where a: "lydict_insert ex_hash ?w (Some (ex_ctx [])) (Some 100) 4
        (Some None) (ex_env (Some 2)) =
      (LY_SUCCESS,
       ?w\<lparr>w_mem := (w_mem ?w)(2 \<mapsto> ''eth0'' @ [NUL]),
           w_trace := w_trace ?w @ [MutexLock, LogDbg, MutexUnlock]\<rparr>,
       Some (set_hash_tab (ex_ctx []) ht'), Some (Some 2))"
    and m: "mset (lyht_records ht') = {#\<lparr>rec_hash = 4, rec_val = \<lparr>dr_value = Some 2, dr_refcount = 1\<rparr>\<rparr>#}"
    unfolding t s h by (auto simp: ex_records)
  from mset_single_list [OF m] a show ?thesis
    by (simp add: dict_records_def)
qed

theorem lydict_insert_seq_same_pointer_witness:
  "fst (lydict_insert_seq ex_hash
          (ex_world [100 \<mapsto> ''eth0'' @ [NUL], 200 \<mapsto> ''eth0/1'' @ [NUL]]) (Some (ex_ctx []))
          [(100, 0, ex_env (Some 1)), (200, 4, ex_env (Some 2)), (1, 0, ex_env (Some 2))])
     = [(LY_SUCCESS, Some (Some 1)), (LY_SUCCESS, Some (Some 1)), (LY_SUCCESS, Some (Some 1))]
   \<and> dict_records (snd (snd (lydict_insert_seq ex_hash
          (ex_world [100 \<mapsto> ''eth0'' @ [NUL], 200 \<mapsto> ''eth0/1'' @ [NUL]]) (Some (ex_ctx []))
          [(100, 0, ex_env (Some 1)), (200, 4, ex_env (Some 2)), (1, 0, ex_env (Some 2))])))
     = [ex_eth0_n 3]"
proof -
  let ?w = "ex_world [100 \<mapsto> ''eth0'' @ [NUL], 200 \<mapsto> ''eth0/1'' @ [NUL]]"
  let ?later = "[(200 :: addr, 4 :: nat, ex_env (Some 2)), (1, 0, ex_env (Some 2))]"
  let ?run = "lydict_insert_seq ex_hash ?w (Some (ex_ctx [])) ((100, 0, ex_env (Some 1)) # ?later)"
  have s: "c_str (''eth0'' @ [NUL]) = ''eth0''" and h: "ex_hash ''eth0'' = 4"
    by (simp_all add: ex_simps)
  have ok: "dict_ok (w_mem ?w) (hash_tab (dict (ex_ctx [])))"
    by (simp add: ex_dict_ok_empty)
  have absent: "\<not> dict_has (w_mem ?w) (hash_tab (dict (ex_ctx []))) (c_str (''eth0'' @ [NUL]))"
    by (simp add: dict_has_def ex_records)
  have first: "insert_call_ok (w_mem ?w) ''eth0'' (100, 0, ex_env (Some 1))"
    by (simp add: insert_call_ok_def ex_simps strlen_def)
  have later: "\<forall>a1. env_malloc (ex_env (Some 1)) = Some a1 \<longrightarrow>
      (\<forall>call \<in> set ?later. insert_call_ok ((w_mem ?w)(a1 \<mapsto> ''eth0'' @ [NUL])) ''eth0'' call)"
    by (simp add: insert_call_ok_def ex_simps strlen_def)
  have succeed: "\<forall>x \<in> set (fst ?run). fst x = LY_SUCCESS"
    by code_simp
  from lydict_insert_seq_same_pointer [where hashf = ex_hash, OF ok absent first later succeed]
  obtain a1 w' c' where a1: "env_malloc (ex_env (Some 1)) = Some a1"
    and r: "?run = (replicate (Suc (length ?later)) (LY_SUCCESS, Some (Some a1)), w', Some c')"
    and m: "mset (lyht_records (hash_tab (dict c')))
              = mset (lyht_records (hash_tab (dict (ex_ctx []))))
                + {#\<lparr>rec_hash = ex_hash ''eth0'',
                      rec_val = \<lparr>dr_value = Some a1,
                                 dr_refcount = word_of_nat (Suc (length ?later))\<rparr>\<rparr>#}"
    by blast
  from a1 have a: "a1 = 1" by (simp add: ex_env_def)
  from m have "mset (lyht_records (hash_tab (dict c'))) = {#ex_eth0_n 3#}"
    unfolding h a by (simp add: ex_records ex_eth0_n_def)
  from mset_single_list [OF this] r show ?thesis
    unfolding a by (simp add: dict_records_def numeral_3_eq_3 del: lydict_insert_seq.simps)
qed

text \<open>
  C1 as stated fails in two ways. For \<open>2^32\<close> calls: all 4294967296 inserts of "eth0"
  return \<open>LY_SUCCESS\<close> and the same pointer, and the reference count of the record is 0
  afterwards, not the number of calls. And for calls that pass the same C string with
  different lengths: an insert of the five bytes "ab", terminator, "cd", and an insert
  of "ab", both succeed and return two different pointers.
\<close>

theorem lydict_insert_seq_fails_as_stated:
  "fst (lydict_insert_seq ex_hash (ex_world [100 \<mapsto> ''eth0'' @ [NUL]]) (Some (ex_ctx []))
      ((100, 0, ex_env (Some 1)) # replicate 4294967295 (100, 0, ex_env (Some 2))))
     = replicate 4294967296 (LY_SUCCESS, Some (Some 1))
   \<and> dict_records (snd (snd (lydict_insert_seq ex_hash (ex_world [100 \<mapsto> ''eth0'' @ [NUL]])
      (Some (ex_ctx []))
      ((100, 0, ex_env (Some 1)) # replicate 4294967295 (100, 0, ex_env (Some 2))))))
     = [ex_eth0_n 0]
   \<and> fst (lydict_insert_seq ex_hash
        (ex_world [100 \<mapsto> ''ab'' @ [NUL] @ ''cd'' @ [NUL], 200 \<mapsto> ''ab'' @ [NUL]])
        (Some (ex_ctx [])) [(100, 5, ex_env (Some 1)), (200, 0, ex_env (Some 2))])
     = [(LY_SUCCESS, Some (Some 1)), (LY_SUCCESS, Some (Some 2))]"
proof -
  let ?w = "ex_world [100 \<mapsto> ''eth0'' @ [NUL]]"
  let ?calls = "replicate 4294967295 (100 :: nat, 0 :: nat, ex_env (Some 2))"
  let ?run = "lydict_insert_seq ex_hash ?w (Some (ex_ctx [])) ((100, 0, ex_env (Some 1)) # ?calls)"
  have s: "c_str (''eth0'' @ [NUL]) = ''eth0''" and h: "ex_hash ''eth0'' = 4"
    by (simp_all add: ex_simps)
  have ok: "dict_ok (w_mem ?w) (hash_tab (dict (ex_ctx [])))"
    by (simp add: ex_dict_ok_empty)
  have absent: "\<not> dict_has (w_mem ?w) (hash_tab (dict (ex_ctx []))) (c_str (''eth0'' @ [NUL]))"
    by (simp add: dict_has_def ex_records)
  have first: "insert_call_ok (w_mem ?w) ''eth0'' (100, 0, ex_env (Some 1))"
    "env_malloc (ex_env (Some 1)) = Some 1"
    "env_rec_ok (ex_env (Some 1)) \<or> ht_free (hash_tab (dict (ex_ctx []))) \<noteq> []"
    by (simp_all add: insert_call_ok_def ex_simps strlen_def)
  have rest: "\<forall>call \<in> set ?calls.
      insert_call_ok ((w_mem ?w)(1 \<mapsto> ''eth0'' @ [NUL])) ''eth0'' call"
    by (simp add: insert_call_ok_def ex_simps strlen_def)
  have mp: "map (\<lambda>call. if env_malloc (snd (snd call)) = None then (LY_EMEM, Some None)
                     else (LY_SUCCESS, Some (Some 1))) ?calls
             = replicate 4294967295 (LY_SUCCESS, Some (Some (1::nat)))"
    by (simp add: ex_env_def)
  have fl: "filter (\<lambda>call. env_malloc (snd (snd call)) \<noteq> None) ?calls = ?calls"
    by (simp add: ex_env_def)
  have rc: "(1 :: 32 word) + word_of_nat 4294967295 = 0" by simp
  have rp: "(LY_SUCCESS, Some (Some (1::nat))) # replicate 4294967295 (LY_SUCCESS, Some (Some 1))
              = replicate 4294967296 (LY_SUCCESS, Some (Some 1))"
    using replicate_Suc [of 4294967295 "(LY_SUCCESS, Some (Some (1::nat)))"] by simp
  from lydict_insert_seq_first_then_dups [where hashf = ex_hash, OF ok absent first rest]
  obtain w' c' where r: "?run = (replicate 4294967296 (LY_SUCCESS, Some (Some 1)), w', Some c')"
    and m: "mset (lyht_records (hash_tab (dict c'))) = {#ex_eth0_n 0#}"
    unfolding h mp fl rp
    by (auto simp del: lydict_insert_seq.simps simp add: ex_records ex_eth0_n_def rc)
  have split: "fst (lydict_insert_seq ex_hash
        (ex_world [100 \<mapsto> ''ab'' @ [NUL] @ ''cd'' @ [NUL], 200 \<mapsto> ''ab'' @ [NUL]])
        (Some (ex_ctx [])) [(100, 5, ex_env (Some 1)), (200, 0, ex_env (Some 2))])
     = [(LY_SUCCESS, Some (Some 1)), (LY_SUCCESS, Some (Some 2))]"
    by code_simp
  from mset_single_list [OF m] r split show ?thesis
    by (simp add: dict_records_def del: lydict_insert_seq.simps)
qed

lemma ex_replicate_8: "(replicate 8 x)[0 := y] = y # replicate 7 x"
  by (simp add: eval_nat_numeral)

lemma ex_insert_eth0:
  "lydict_insert ex_hash (ex_world [100 \<mapsto> ''eth0'' @ [NUL]]) (Some (ex_ctx []))
       (Some 100) 0 (Some None) (ex_env (Some 1))
     = (LY_SUCCESS,
        \<lparr>w_mem = [100 \<mapsto> ''eth0'' @ [NUL], 1 \<mapsto> ''eth0'' @ [NUL]],
          w_trace = [MutexLock, LogDbg, MutexUnlock]\<rparr>,
        Some (ex_ctx [ex_eth0_n 1]), Some (Some 1))"
  by (simp add: lydict_insert_def dict_insert_def lyht_insert_with_resize_cb_def
      lyht_find_pos_def lyht_new_rec_def lyht_chain_def lyht_bucket_def lyht_rec_at_def
      set_hash_tab_def write_str_p_def log_event_def strlen_def Let_def
      LYHT_HUNDRED_PERCENTAGE_def LYHT_FIRST_SHRINK_PERCENTAGE_def LYHT_ENLARGE_PERCENTAGE_def
      ex_simps lyht_no_rec_def upt_rec ex_replicate_8)




end
